theory Spec2Isabelle
  imports Complex_Main "HOL-Library.Multiset" "HOL-Library.Sublist"
begin

section \<open>Data model (src/src/App.tsx, part 1, and src/src/types.tsx)\<close>

text \<open>
  \<^verbatim>\<open>type PrimitiveType = 'cube' | 'sphere' | 'cylinder' | 'cone' | 'd20'\<close> and the
  field \<^verbatim>\<open>type: PrimitiveType | 'group'\<close> of a component.
\<close>

datatype PrimitiveType = cube | sphere | cylinder | cone | d20

datatype ComponentType = Prim PrimitiveType | group

text \<open>
  A \<^verbatim>\<open>[number, number, number]\<close> tuple. The numbers are only stored and copied,
  never computed with, so they are taken as reals.
\<close>

type_synonym vec3 = "real \<times> real \<times> real"

text \<open>
  \<^verbatim>\<open>interface Component\<close>. An element of a \<^verbatim>\<open>Component[]\<close> is, at run time, either
  a component object or \<^verbatim>\<open>undefined\<close> (which \<^verbatim>\<open>splice\<close> can insert, see
  \<open>reorderList\<close>): a slot is a \<open>Component option\<close>, with \<open>None\<close> for
  \<^verbatim>\<open>undefined\<close>.
\<close>

datatype Component =
  Component (cid: string) (name: string) (ctype: ComponentType)
    (position: vec3) (rotation: vec3) (scale: vec3)
    (children: "Component option list")

type_synonym forest = "Component option list"

lemma size_children [termination_simp]:
  "size_list (size_option size) (children c) < size c"
  by (cases c) simp

text \<open>Reading a property of \<^verbatim>\<open>undefined\<close> throws a \<^verbatim>\<open>TypeError\<close>.\<close>

datatype error = TypeError

text \<open>The object spread \<^verbatim>\<open>{ ...cmp, children: cs }\<close>.\<close>

definition with_children :: "Component \<Rightarrow> forest \<Rightarrow> Component" where
  "with_children cmp cs =
     Component (cid cmp) (name cmp) (ctype cmp) (position cmp) (rotation cmp) (scale cmp) cs"

text \<open>
  \<^verbatim>\<open>components.map(f)\<close> with a callback that may throw: the elements are visited from
  left to right and the first exception ends the call.
\<close>

fun map_throw :: "('a \<Rightarrow> error + 'b) \<Rightarrow> 'a list \<Rightarrow> error + 'b list" where
  "map_throw f [] = Inr []"
| "map_throw f (x # xs) =
     (case f x of
        Inl e \<Rightarrow> Inl e
      | Inr y \<Rightarrow> (case map_throw f xs of Inl e \<Rightarrow> Inl e | Inr ys \<Rightarrow> Inr (y # ys)))"

lemma map_throw_cong [fundef_cong]:
  "xs = ys \<Longrightarrow> (\<And>x. x \<in> set ys \<Longrightarrow> f x = g x) \<Longrightarrow> map_throw f xs = map_throw g ys"
  by (induction ys arbitrary: xs) (auto split: sum.splits)

section \<open>Tree operations\<close>

subsection \<open>findComponentById (App.tsx, lines 195 to 204)\<close>

text \<open>
  The \<^verbatim>\<open>for\<close> loop with its early returns. \<^verbatim>\<open>cmp.children\<close> is an array and
  every array is truthy, so the recursive call is always made; \<^verbatim>\<open>found\<close> is an object
  (truthy) or \<^verbatim>\<open>null\<close>. The result \<open>None\<close> is \<^verbatim>\<open>null\<close>.
\<close>

fun findComponentById :: "forest \<Rightarrow> string \<Rightarrow> error + Component option" where
  "findComponentById [] i = Inr None"
| "findComponentById (None # components) i = Inl TypeError"
| "findComponentById (Some cmp # components) i =
     (if cid cmp = i then Inr (Some cmp)
      else (case findComponentById (children cmp) i of
              Inl e \<Rightarrow> Inl e
            | Inr (Some found) \<Rightarrow> Inr (Some found)
            | Inr None \<Rightarrow> findComponentById components i))"

subsection \<open>updateComponent (App.tsx, lines 303 to 316)\<close>

fun updateRecursive :: "Component \<Rightarrow> forest \<Rightarrow> error + forest" where
  "updateRecursive updatedComponent components =
     map_throw
       (\<lambda>slot. case slot of
            None \<Rightarrow> Inl TypeError
          | Some cmp \<Rightarrow>
              if cid cmp = cid updatedComponent then Inr (Some updatedComponent)
              else if length (children cmp) > 0 then
                (case updateRecursive updatedComponent (children cmp) of
                   Inl e \<Rightarrow> Inl e
                 | Inr cs \<Rightarrow> Inr (Some (with_children cmp cs)))
              else Inr (Some cmp))
       components"

text \<open>\<^verbatim>\<open>setModel(updateRecursive(model))\<close>: the new value of the state \<^verbatim>\<open>model\<close>.\<close>

definition updateComponent :: "Component \<Rightarrow> forest \<Rightarrow> error + forest" where
  "updateComponent updatedComponent model = updateRecursive updatedComponent model"

subsection \<open>reorder (App.tsx, lines 318 to 346)\<close>

text \<open>
  \<^verbatim>\<open>Array.prototype.splice\<close> turns its first argument into a position of the array:
  a negative one counts from the end, and the result is clamped to \<open>0 .. len\<close>.
  Indices are integers (the tree view passes \<open>index - 1\<close> and \<open>index + 1\<close>).
\<close>

definition splice_start :: "int \<Rightarrow> nat \<Rightarrow> nat" where
  "splice_start start len =
     (if start < 0 then nat (max (int len + start) 0) else min (nat start) len)"

text \<open>
  \<^verbatim>\<open>const newList = [...list]; const [moved] = newList.splice(fromIndex, 1);
  newList.splice(toIndex, 0, moved); return newList\<close>.
  The first splice deletes at most one element and returns the deleted ones; the array
  pattern \<^verbatim>\<open>[moved]\<close> binds the first of them, or \<^verbatim>\<open>undefined\<close> when none was
  deleted. The second splice deletes nothing and inserts \<^verbatim>\<open>moved\<close>.
\<close>

definition reorderList :: "int \<Rightarrow> int \<Rightarrow> 'a option list \<Rightarrow> 'a option list" where
  "reorderList fromIndex toIndex list =
     (let s = splice_start fromIndex (length list);
          removed = take 1 (drop s list);
          newList = take s list @ drop (s + 1) list;
          moved = (case removed of [] \<Rightarrow> None | m # _ \<Rightarrow> m);
          t = splice_start toIndex (length newList)
      in take t newList @ moved # drop t newList)"

text \<open>
  \<^verbatim>\<open>!parentId\<close> for a \<^verbatim>\<open>string | null\<close>: true for \<^verbatim>\<open>null\<close> and for the empty
  string.
\<close>

definition falsy :: "string option \<Rightarrow> bool" where
  "falsy parentId = (case parentId of None \<Rightarrow> True | Some s \<Rightarrow> s = [])"

text \<open>The inner \<^verbatim>\<open>updateRecursive\<close> of \<^verbatim>\<open>reorder\<close>.\<close>

fun reorder_updateRecursive :: "string option \<Rightarrow> int \<Rightarrow> int \<Rightarrow> forest \<Rightarrow> error + forest" where
  "reorder_updateRecursive parentId fromIndex toIndex components =
     (if falsy parentId then Inr (reorderList fromIndex toIndex components)
      else
        map_throw
          (\<lambda>slot. case slot of
               None \<Rightarrow> Inl TypeError
             | Some cmp \<Rightarrow>
                 if Some (cid cmp) = parentId then
                   Inr (Some (with_children cmp (reorderList fromIndex toIndex (children cmp))))
                 else if length (children cmp) > 0 then
                   (case reorder_updateRecursive parentId fromIndex toIndex (children cmp) of
                      Inl e \<Rightarrow> Inl e
                    | Inr cs \<Rightarrow> Inr (Some (with_children cmp cs)))
                 else Inr (Some cmp))
          components)"

text \<open>\<^verbatim>\<open>setModel(prev => updateRecursive(prev))\<close>: the new value of \<^verbatim>\<open>model\<close>.\<close>

definition reorder :: "string option \<Rightarrow> int \<Rightarrow> int \<Rightarrow> forest \<Rightarrow> error + forest" where
  "reorder parentId fromIndex toIndex prev =
     reorder_updateRecursive parentId fromIndex toIndex prev"

subsection \<open>addPrimitive (App.tsx, lines 290 to 301)\<close>

text \<open>The string values of \<^verbatim>\<open>PrimitiveType\<close>.\<close>

fun type_string :: "PrimitiveType \<Rightarrow> string" where
  "type_string cube = ''cube''"
| "type_string sphere = ''sphere''"
| "type_string cylinder = ''cylinder''"
| "type_string cone = ''cone''"
| "type_string d20 = ''d20''"

text \<open>\<^verbatim>\<open>toUpperCase\<close> on one ASCII character.\<close>

definition toUpperCase :: "char \<Rightarrow> char" where
  "toUpperCase c =
     (let n = (of_char c :: nat) in if 97 \<le> n \<and> n \<le> 122 then char_of (n - 32) else c)"

text \<open>\<^verbatim>\<open>type.charAt(0).toUpperCase() + type.slice(1)\<close>.\<close>

definition capitalized :: "string \<Rightarrow> string" where
  "capitalized s = map toUpperCase (take 1 s) @ drop 1 s"

text \<open>
  \<^verbatim>\<open>Math.random().toString(36).substring(2, 9)\<close> is the one input of \<^verbatim>\<open>addPrimitive\<close>
  that the program does not determine: the drawn token is the parameter \<open>token\<close>.
  \<^verbatim>\<open>setModel(prev => [...prev, newComponent])\<close> gives the new value of \<^verbatim>\<open>model\<close>.
\<close>

definition newComponent :: "string \<Rightarrow> PrimitiveType \<Rightarrow> Component" where
  "newComponent token type =
     Component token (capitalized (type_string type)) (Prim type) (0, 0, 0) (0, 0, 0) (1, 1, 1) []"

definition addPrimitive :: "string \<Rightarrow> PrimitiveType \<Rightarrow> forest \<Rightarrow> forest" where
  "addPrimitive token type prev = prev @ [Some (newComponent token type)]"

section \<open>Scene materialisation: buildScene (App.tsx, lines 353 to 393)\<close>

text \<open>
  The three.js objects that \<^verbatim>\<open>buildScene\<close> allocates, with the constructor arguments
  as written in the source. A \<open>Mesh\<close> carries its geometry, its material and the
  position, rotation and scale set on it; a \<open>Group\<close> carries its children.
\<close>

datatype BufferGeometry =
    BoxGeometry real real real
  | SphereGeometry real nat nat
  | CylinderGeometry real real real nat
  | ConeGeometry real real nat
  | IcosahedronGeometry real nat

datatype Material = MeshStandardMaterial string

datatype Object3D =
    Mesh BufferGeometry Material vec3 vec3 vec3
  | Group "Object3D list"

text \<open>
  \<^verbatim>\<open>components.forEach(f)\<close> where the callback updates the parent object and may
  throw.
\<close>

fun forEach_throw :: "('a \<Rightarrow> 's \<Rightarrow> error + 's) \<Rightarrow> 'a list \<Rightarrow> 's \<Rightarrow> error + 's" where
  "forEach_throw f [] s = Inr s"
| "forEach_throw f (x # xs) s =
     (case f x s of Inl e \<Rightarrow> Inl e | Inr s' \<Rightarrow> forEach_throw f xs s')"

lemma forEach_throw_cong [fundef_cong]:
  "xs = ys \<Longrightarrow> s = t \<Longrightarrow> (\<And>x u. x \<in> set ys \<Longrightarrow> f x u = g x u)
     \<Longrightarrow> forEach_throw f xs s = forEach_throw g ys t"
  by (induction ys arbitrary: xs s t) (auto split: sum.splits)

text \<open>The \<^verbatim>\<open>switch (comp.type)\<close>: the geometry of the mesh, or no mesh for a group.\<close>

fun mesh_geometry :: "ComponentType \<Rightarrow> BufferGeometry option" where
  "mesh_geometry (Prim cube) = Some (BoxGeometry 1 1 1)"
| "mesh_geometry (Prim sphere) = Some (SphereGeometry 1 32 32)"
| "mesh_geometry (Prim cylinder) = Some (CylinderGeometry 1 1 2 32)"
| "mesh_geometry (Prim cone) = Some (ConeGeometry 1 2 32)"
| "mesh_geometry (Prim d20) = Some (IcosahedronGeometry 1 0)"
| "mesh_geometry group = None"

text \<open>
  \<open>buildScene components parent\<close>: \<open>parent\<close> is the list of children of the parent
  object so far, and the result is that list after the call. \<^verbatim>\<open>parent.add(x)\<close>
  appends \<open>x\<close>. The new group is filled by the recursive call.
\<close>

fun buildScene :: "forest \<Rightarrow> Object3D list \<Rightarrow> error + Object3D list" where
  "buildScene components parent =
     forEach_throw
       (\<lambda>slot parent. case slot of
            None \<Rightarrow> Inl TypeError
          | Some cmp \<Rightarrow>
              (let material = MeshStandardMaterial ''white'';
                   mesh = map_option (\<lambda>g. Mesh g material (position cmp) (rotation cmp) (scale cmp))
                            (mesh_geometry (ctype cmp));
                   parent = (case mesh of Some m \<Rightarrow> parent @ [m] | None \<Rightarrow> parent)
               in if length (children cmp) > 0 then
                    (case buildScene (children cmp) [] of
                       Inl e \<Rightarrow> Inl e
                     | Inr grp \<Rightarrow> Inr (parent @ [Group grp]))
                  else Inr parent))
       components parent"

text \<open>
  \<^verbatim>\<open>const scene = new THREE.Scene(); buildScene(model, scene)\<close> in \<^verbatim>\<open>onExport\<close>:
  the children of the scene handed to the exporter.
\<close>

definition export_scene :: "forest \<Rightarrow> error + Object3D list" where
  "export_scene model = buildScene model []"

section \<open>Notions used to state the properties\<close>

text \<open>A forest of the declared type \<^verbatim>\<open>Component[]\<close>: no slot is \<^verbatim>\<open>undefined\<close>, at any depth.\<close>

fun well_typed :: "forest \<Rightarrow> bool" where
  "well_typed [] = True"
| "well_typed (None # cs) = False"
| "well_typed (Some c # cs) = (well_typed (children c) \<and> well_typed cs)"

text \<open>The nodes of a forest in depth-first pre-order, and their ids.\<close>

fun preorder :: "forest \<Rightarrow> Component list" where
  "preorder [] = []"
| "preorder (None # cs) = preorder cs"
| "preorder (Some c # cs) = c # preorder (children c) @ preorder cs"

definition ids :: "forest \<Rightarrow> string list" where
  "ids f = map cid (preorder f)"

text \<open>
  A node is addressed by its path: the index of a root, then the index of a child of that
  root, and so on. \<open>node_at f p\<close> is the node at path \<open>p\<close>, if there is one.
\<close>

fun node_at :: "forest \<Rightarrow> nat list \<Rightarrow> Component option" where
  "node_at f [] = None"
| "node_at f [k] = (if k < length f then f ! k else None)"
| "node_at f (k # p) =
     (if k < length f then (case f ! k of None \<Rightarrow> None | Some c \<Rightarrow> node_at (children c) p)
      else None)"

text \<open>The record of a node without its subtree: its fields and its number of children.\<close>

definition fields :: "Component \<Rightarrow> string \<times> string \<times> ComponentType \<times> vec3 \<times> vec3 \<times> vec3 \<times> nat" where
  "fields c = (cid c, name c, ctype c, position c, rotation c, scale c, length (children c))"

text \<open>
  What one node contributes to its parent object, given the content \<open>grp\<close> of its
  group: its mesh if it has a leaf type, then its group if it has children.
\<close>

definition node_objects :: "Component \<Rightarrow> Object3D list \<Rightarrow> Object3D list" where
  "node_objects c grp =
     (case mesh_geometry (ctype c) of
        None \<Rightarrow> []
      | Some g \<Rightarrow> [Mesh g (MeshStandardMaterial ''white'') (position c) (rotation c) (scale c)])
     @ (if children c = [] then [] else [Group grp])"

text \<open>
  List-move: \<open>ys\<close> is \<open>xs\<close> with the element at index \<open>a\<close> taken out and put back at
  index \<open>b\<close>. The elements before both indices and after both keep their index, and the
  elements between them shift by one towards \<open>a\<close>.
\<close>

definition moved_to :: "nat \<Rightarrow> nat \<Rightarrow> 'a list \<Rightarrow> 'a list \<Rightarrow> bool" where
  "moved_to a b xs ys =
     (length ys = length xs \<and>
      list_all
        (\<lambda>k. ys ! k =
           (if k = b then xs ! a
            else if k < min a b \<or> max a b < k then xs ! k
            else if a < b then xs ! (k + 1)
            else xs ! (k - 1)))
        [0..<length xs])"

text \<open>The nodes strictly above the end of a path, from the root down.\<close>

fun ancestors :: "forest \<Rightarrow> nat list \<Rightarrow> Component list" where
  "ancestors f [] = []"
| "ancestors f [k] = []"
| "ancestors f (k # q) =
     (if k < length f then (case f ! k of None \<Rightarrow> [] | Some c \<Rightarrow> c # ancestors (children c) q)
      else [])"

text \<open>
  \<open>replaced_at f f' p u\<close>: the forest \<open>f'\<close> is \<open>f\<close> with the node at path \<open>p\<close> replaced
  by \<open>u\<close>. The node at \<open>p\<close> is \<open>u\<close>; at every path outside the subtree at \<open>p\<close> there is
  a node in \<open>f'\<close> exactly when there is one in \<open>f\<close>, with the same fields and as many
  children; and at every path that is neither inside that subtree nor above it, the node
  is the same with its whole subtree.
\<close>

definition replaced_at :: "forest \<Rightarrow> forest \<Rightarrow> nat list \<Rightarrow> Component \<Rightarrow> bool" where
  "replaced_at f f' p u =
     (node_at f' p = Some u
      \<and> (\<forall>q. \<not> prefix p q \<longrightarrow> map_option fields (node_at f' q) = map_option fields (node_at f q))
      \<and> (\<forall>q. \<not> prefix p q \<and> \<not> prefix q p \<longrightarrow> node_at f' q = node_at f q))"

text \<open>
  The operations on the state \<^verbatim>\<open>model\<close>, and the forests that a sequence of them
  reaches from the empty forest. An operation that throws leaves no new state. The side
  conditions \<open>op_ok\<close> are: the token of a new root does not occur in the forest; an update
  names an id of the forest, the ids of the replacement node are pairwise distinct, and
  those of them that occur in the forest lie in the subtree that is replaced.
\<close>

datatype operation =
    AddRoot string PrimitiveType
  | UpdateById Component
  | Reorder "string option" int int

fun apply_operation :: "operation \<Rightarrow> forest \<Rightarrow> error + forest" where
  "apply_operation (AddRoot token type) f = Inr (addPrimitive token type f)"
| "apply_operation (UpdateById u) f = updateComponent u f"
| "apply_operation (Reorder parentId fromIndex toIndex) f = reorder parentId fromIndex toIndex f"

fun op_ok :: "operation \<Rightarrow> forest \<Rightarrow> bool" where
  "op_ok (AddRoot token type) f = (token \<notin> set (ids f))"
| "op_ok (UpdateById u) f =
     (cid u \<in> set (ids f) \<and> distinct (ids [Some u]) \<and>
      (case findComponentById f (cid u) of
         Inr (Some x) \<Rightarrow> set (ids [Some u]) \<inter> set (ids f) \<subseteq> set (ids [Some x])
       | _ \<Rightarrow> False))"
| "op_ok (Reorder parentId fromIndex toIndex) f = True"

inductive reachable :: "forest \<Rightarrow> bool" where
  empty: "reachable []"
| step: "reachable f \<Longrightarrow> op_ok oper f \<Longrightarrow> apply_operation oper f = Inr f' \<Longrightarrow> reachable f'"

section \<open>The export with an explicit heap\<close>

text \<open>
  To state what \<^verbatim>\<open>buildScene\<close> writes to, the objects are placed in a heap. An address
  is an index into the list of all objects allocated so far; \<^verbatim>\<open>new\<close> appends.
  A component object holds its id, name and type and the addresses of its three tuples
  and of its array of children; a \<^verbatim>\<open>Component[]\<close> holds the addresses of its
  elements, or \<^verbatim>\<open>undefined\<close>. A mesh holds its geometry and material and its own
  position, rotation and scale vectors (made by the \<^verbatim>\<open>Mesh\<close> constructor); a scene or
  group holds the addresses of its children.
\<close>

type_synonym addr = nat

datatype heap_object =
    ComponentObject string string ComponentType addr addr addr addr
  | NumberTuple vec3
  | ComponentArray "addr option list"
  | MeshObject BufferGeometry Material vec3 vec3 vec3
  | GroupObject "addr list"

type_synonym heap = "heap_object list"

definition lookup :: "heap \<Rightarrow> addr \<Rightarrow> heap_object option" where
  "lookup h a = (if a < length h then Some (h ! a) else None)"

definition alloc :: "heap_object \<Rightarrow> heap \<Rightarrow> addr \<times> heap" where
  "alloc obj h = (length h, h @ [obj])"

text \<open>
  The outcome of a piece of code: the exception it threw, if any, and the heap it left.
  Code that reads a heap which does not have the declared types throws a
  \<^verbatim>\<open>TypeError\<close>.
\<close>

type_synonym outcome = "error option \<times> heap"

text \<open>\<^verbatim>\<open>forEach\<close> with a callback that works on the heap, may throw, and may not return.\<close>

fun forEach_heap ::
  "('a \<Rightarrow> heap \<Rightarrow> outcome option) \<Rightarrow> 'a list \<Rightarrow> heap \<Rightarrow> outcome option" where
  "forEach_heap f [] h = Some (None, h)"
| "forEach_heap f (x # xs) h =
     (case f x h of
        None \<Rightarrow> None
      | Some (Some e, h') \<Rightarrow> Some (Some e, h')
      | Some (None, h') \<Rightarrow> forEach_heap f xs h')"

text \<open>\<^verbatim>\<open>parent.add(obj)\<close>: the parent scene or group gets one more child.\<close>

definition Object3D_add :: "addr \<Rightarrow> addr \<Rightarrow> heap \<Rightarrow> outcome" where
  "Object3D_add parent obj h =
     (case lookup h parent of
        Some (GroupObject cs) \<Rightarrow> (None, h[parent := GroupObject (cs @ [obj])])
      | _ \<Rightarrow> (Some TypeError, h))"

text \<open>The spread \<^verbatim>\<open>...comp.position\<close> reads the three numbers of the tuple.\<close>

definition read_tuple :: "heap \<Rightarrow> addr \<Rightarrow> vec3 option" where
  "read_tuple h a = (case lookup h a of Some (NumberTuple v) \<Rightarrow> Some v | _ \<Rightarrow> None)"

text \<open>
  \<^verbatim>\<open>mesh = new THREE.Mesh(geometry, material); mesh.position.set(...comp.position);
  mesh.rotation.set(...comp.rotation); mesh.scale.set(...comp.scale); parent.add(mesh)\<close>.
  A new mesh has position and rotation \<open>(0,0,0)\<close> and scale \<open>(1,1,1)\<close>; the three
  \<^verbatim>\<open>set\<close> calls write the numbers read from the component into the vectors of the
  mesh.
\<close>

definition new_mesh :: "BufferGeometry \<Rightarrow> addr \<Rightarrow> addr \<Rightarrow> addr \<Rightarrow> addr \<Rightarrow> heap \<Rightarrow> outcome" where
  "new_mesh geometry pa ra sa parent h =
     (let material = MeshStandardMaterial ''white'';
          (mesh, h) = alloc (MeshObject geometry material (0, 0, 0) (0, 0, 0) (1, 1, 1)) h
      in case (read_tuple h pa, read_tuple h ra, read_tuple h sa) of
           (Some p, Some r, Some s) \<Rightarrow>
             Object3D_add parent mesh (h[mesh := MeshObject geometry material p r s])
         | _ \<Rightarrow> (Some TypeError, h))"

text \<open>\<^verbatim>\<open>const group = new THREE.Group(); parent.add(group)\<close>.\<close>

definition new_group :: "addr \<Rightarrow> heap \<Rightarrow> addr \<times> outcome" where
  "new_group parent h = (let (grp, h) = alloc (GroupObject []) h in (grp, Object3D_add parent grp h))"

text \<open>
  The callback of \<^verbatim>\<open>components.forEach\<close> in \<^verbatim>\<open>buildScene\<close>, for one element.
  \<open>recur\<close> stands for the recursive call of \<^verbatim>\<open>buildScene\<close>.
\<close>

definition visit ::
  "(addr \<Rightarrow> addr \<Rightarrow> heap \<Rightarrow> outcome option) \<Rightarrow> addr \<Rightarrow> addr option \<Rightarrow> heap \<Rightarrow> outcome option" where
  "visit recur parent slot h =
     (case slot of
        None \<Rightarrow> Some (Some TypeError, h)
      | Some cmp \<Rightarrow>
          (case lookup h cmp of
             Some (ComponentObject i n type pa ra sa cha) \<Rightarrow>
               (case (case mesh_geometry type of
                        None \<Rightarrow> (None, h)
                      | Some geometry \<Rightarrow> new_mesh geometry pa ra sa parent h) of
                  (Some e, h) \<Rightarrow> Some (Some e, h)
                | (None, h) \<Rightarrow>
                    (case lookup h cha of
                       Some (ComponentArray cs) \<Rightarrow>
                         if length cs > 0 then
                           (case new_group parent h of
                              (grp, Some e, h) \<Rightarrow> Some (Some e, h)
                            | (grp, None, h) \<Rightarrow> recur cha grp h)
                         else Some (None, h)
                     | _ \<Rightarrow> Some (Some TypeError, h)))
           | _ \<Rightarrow> Some (Some TypeError, h)))"

text \<open>
  \<^verbatim>\<open>buildScene\<close> on the heap. The heap may hold a cyclic structure, on which the
  recursion does not end: the first argument bounds the depth of the recursion, and
  \<open>None\<close> says that the bound was reached.
\<close>

fun buildScene_heap :: "nat \<Rightarrow> addr \<Rightarrow> addr \<Rightarrow> heap \<Rightarrow> outcome option" where
  "buildScene_heap 0 components parent h = None"
| "buildScene_heap (Suc fuel) components parent h =
     (case lookup h components of
        Some (ComponentArray slots) \<Rightarrow>
          forEach_heap (visit (buildScene_heap fuel) parent) slots h
      | _ \<Rightarrow> Some (Some TypeError, h))"

text \<open>
  \<^verbatim>\<open>const scene = new THREE.Scene(); buildScene(model, scene)\<close> in \<^verbatim>\<open>onExport\<close>:
  the address of the scene and the outcome.
\<close>

definition onExport_heap :: "nat \<Rightarrow> addr \<Rightarrow> heap \<Rightarrow> (addr \<times> outcome) option" where
  "onExport_heap fuel model h =
     (let (scene, h) = alloc (GroupObject []) h
      in map_option (Pair scene) (buildScene_heap fuel model scene h))"

text \<open>
  \<open>represents h a f\<close>: the array at address \<open>a\<close> of the heap \<open>h\<close> holds the forest \<open>f\<close>.
\<close>

fun represents_slots :: "heap \<Rightarrow> addr option list \<Rightarrow> forest \<Rightarrow> bool" where
  "represents_slots h [] [] = True"
| "represents_slots h (None # slots) (None # cs) = represents_slots h slots cs"
| "represents_slots h (Some a # slots) (Some c # cs) =
     ((case lookup h a of
         Some (ComponentObject i n type pa ra sa cha) \<Rightarrow>
           i = cid c \<and> n = name c \<and> type = ctype c
           \<and> read_tuple h pa = Some (position c)
           \<and> read_tuple h ra = Some (rotation c)
           \<and> read_tuple h sa = Some (scale c)
           \<and> (case lookup h cha of
                Some (ComponentArray chs) \<Rightarrow> represents_slots h chs (children c)
              | _ \<Rightarrow> False)
       | _ \<Rightarrow> False)
      \<and> represents_slots h slots cs)"
| "represents_slots h _ _ = False"

definition represents :: "heap \<Rightarrow> addr \<Rightarrow> forest \<Rightarrow> bool" where
  "represents h a f =
     (case lookup h a of Some (ComponentArray slots) \<Rightarrow> represents_slots h slots f | _ \<Rightarrow> False)"

text \<open>The number of levels of a forest.\<close>

fun depth :: "forest \<Rightarrow> nat" where
  "depth [] = 0"
| "depth (None # cs) = depth cs"
| "depth (Some c # cs) = max (Suc (depth (children c))) (depth cs)"

text \<open>
  \<open>unchanged_except parent h h'\<close>: every object of \<open>h\<close> is at its address in \<open>h'\<close>,
  unchanged, except perhaps the one at \<open>parent\<close>.
\<close>

definition unchanged_except :: "addr \<Rightarrow> heap \<Rightarrow> heap \<Rightarrow> bool" where
  "unchanged_except parent h h' =
     (length h \<le> length h' \<and> (\<forall>a < length h. a \<noteq> parent \<longrightarrow> h' ! a = h ! a))"

text \<open>
  \<open>scene_in lo hi h as os\<close>: the objects at the addresses \<open>as\<close> of the heap \<open>h\<close> are the
  scene objects \<open>os\<close>, and all the objects involved live at addresses from \<open>lo\<close> up to,
  not including, \<open>hi\<close>.
\<close>

fun scene_in :: "nat \<Rightarrow> nat \<Rightarrow> heap \<Rightarrow> addr list \<Rightarrow> Object3D list \<Rightarrow> bool" where
  "scene_in lo hi h [] [] = True"
| "scene_in lo hi h (a # as) (Mesh g m p r s # os) =
     (lo \<le> a \<and> a < hi \<and> lookup h a = Some (MeshObject g m p r s) \<and> scene_in lo hi h as os)"
| "scene_in lo hi h (a # as) (Group gs # os) =
     (lo \<le> a \<and> a < hi
      \<and> (case lookup h a of Some (GroupObject cs) \<Rightarrow> scene_in lo hi h cs gs | _ \<Rightarrow> False)
      \<and> scene_in lo hi h as os)"
| "scene_in lo hi h _ _ = False"

text \<open>
  \<open>built parent h h' os\<close>: in \<open>h'\<close> the scene or group at \<open>parent\<close> has the children
  \<open>os\<close>, all of them at addresses above \<open>parent\<close>, and nothing else of \<open>h\<close> has changed.
\<close>

definition built :: "addr \<Rightarrow> heap \<Rightarrow> heap \<Rightarrow> Object3D list \<Rightarrow> bool" where
  "built parent h h' os =
     (unchanged_except parent h h'
      \<and> (case lookup h' parent of
           Some (GroupObject cs) \<Rightarrow> scene_in (Suc parent) (length h') h' cs os
         | _ \<Rightarrow> False))"

section \<open>Example forests\<close>

definition ex_cube :: Component where
  "ex_cube = newComponent ''c1'' cube"

definition ex_sphere :: Component where
  "ex_sphere = newComponent ''s1'' sphere"

definition ex_group :: Component where
  "ex_group =
     Component ''g1'' ''Group'' group (0, 0, 0) (0, 0, 0) (1, 1, 1) [Some ex_cube, Some ex_sphere]"

text \<open>A group whose id is the empty string.\<close>

definition ex_anon :: Component where
  "ex_anon =
     Component [] ''Group'' group (0, 0, 0) (0, 0, 0) (1, 1, 1) [Some ex_cube, Some ex_sphere]"

text \<open>A node whose child has the id of the node itself.\<close>

definition ex_dup :: Component where
  "ex_dup = Component ''c1'' ''Cube'' (Prim cube) (0, 0, 0) (0, 0, 0) (1, 1, 1) [Some ex_cube]"

text \<open>A leaf node that carries a child.\<close>

definition ex_cone :: Component where
  "ex_cone =
     Component ''k1'' ''Cone'' (Prim cone) (2, 0, 0) (0, 1, 0) (1, 1, 3) [Some ex_sphere]"

text \<open>A heap that holds the forest with the one root \<open>ex_cone\<close>, its array at address 0.\<close>

definition ex_heap :: heap where
  "ex_heap =
     [ComponentArray [Some 1],
      ComponentObject ''k1'' ''Cone'' (Prim cone) 2 3 4 5,
      NumberTuple (2, 0, 0), NumberTuple (0, 1, 0), NumberTuple (1, 1, 3),
      ComponentArray [Some 6],
      ComponentObject ''s1'' ''Sphere'' (Prim sphere) 7 8 9 10,
      NumberTuple (0, 0, 0), NumberTuple (0, 0, 0), NumberTuple (1, 1, 1),
      ComponentArray []]"

section \<open>Auxiliary facts\<close>

lemma find_append_case:
  "List.find P (xs @ ys) = (case List.find P xs of None \<Rightarrow> List.find P ys | Some x \<Rightarrow> Some x)"
  by (induction xs) auto

lemma find_is_preorder_find:
  "well_typed f \<Longrightarrow> findComponentById f i = Inr (List.find (\<lambda>c. cid c = i) (preorder f))"
  by (induction f i rule: findComponentById.induct)
     (auto simp: find_append_case split: option.splits)

lemma well_typed_append: "well_typed (f @ g) = (well_typed f \<and> well_typed g)"
  by (induction f rule: well_typed.induct) auto

lemma preorder_append: "preorder (f @ g) = preorder f @ preorder g"
  by (induction f rule: preorder.induct) auto

lemma ids_append: "ids (f @ g) = ids f @ ids g"
  by (simp add: ids_def preorder_append)

lemma node_at_append: "node_at f p \<noteq> None \<Longrightarrow> node_at (f @ g) p = node_at f p"
  by (cases "(f, p)" rule: node_at.cases) (auto simp: nth_append split: if_splits)

lemma buildScene_Nil: "buildScene [] parent = Inr parent"
  by simp

lemma buildScene_None: "buildScene (None # cs) parent = Inl TypeError"
  by simp

lemma buildScene_Some:
  "buildScene (Some c # cs) parent =
     (if children c = [] then buildScene cs (parent @ node_objects c [])
      else (case buildScene (children c) [] of
              Inl e \<Rightarrow> Inl e
            | Inr grp \<Rightarrow> buildScene cs (parent @ node_objects c grp)))"
  by (auto simp: Let_def node_objects_def split: sum.splits option.splits)

declare buildScene.simps [simp del]

lemma buildScene_append:
  "buildScene (xs @ ys) parent =
     (case buildScene xs parent of Inl e \<Rightarrow> Inl e | Inr p \<Rightarrow> buildScene ys p)"
proof (induction xs arbitrary: parent)
  case Nil
  then show ?case by (simp add: buildScene_Nil)
next
  case (Cons a xs)
  then show ?case
    by (cases a) (auto simp: buildScene_None buildScene_Some split: sum.splits)
qed

lemma buildScene_total:
  "well_typed f \<Longrightarrow>
     \<exists>r. buildScene f [] = Inr r \<and> (\<forall>parent. buildScene f parent = Inr (parent @ r))"
proof (induction f rule: well_typed.induct)
  case 1
  then show ?case by (simp add: buildScene_Nil)
next
  case (2 cs)
  then show ?case by simp
next
  case (3 c cs)
  then obtain g r where g: "buildScene (children c) [] = Inr g"
    and r: "buildScene cs [] = Inr r" "\<forall>parent. buildScene cs parent = Inr (parent @ r)"
    by auto
  show ?case
    using g r by (simp add: buildScene_Some)
qed

lemma buildScene_split:
  assumes "well_typed (pre @ Some c # post)"
  shows "\<exists>P g R. buildScene pre [] = Inr P \<and> buildScene (children c) [] = Inr g
           \<and> buildScene post [] = Inr R
           \<and> (\<forall>parent. buildScene (pre @ Some c # post) parent
                 = Inr (parent @ P @ node_objects c g @ R))"
proof -
  from assms have wt: "well_typed pre" "well_typed (children c)" "well_typed post"
    by (simp_all add: well_typed_append)
  obtain P where P: "buildScene pre [] = Inr P" "\<forall>parent. buildScene pre parent = Inr (parent @ P)"
    using buildScene_total [OF wt(1)] by blast
  obtain g where g: "buildScene (children c) [] = Inr g"
    using buildScene_total [OF wt(2)] by blast
  obtain R where R: "buildScene post [] = Inr R" "\<forall>parent. buildScene post parent = Inr (parent @ R)"
    using buildScene_total [OF wt(3)] by blast
  have "buildScene (pre @ Some c # post) parent = Inr (parent @ P @ node_objects c g @ R)"
    for parent
    using P(2) g R(2) by (simp add: buildScene_append buildScene_Some node_objects_def)
  with P(1) g R(1) show ?thesis by blast
qed

lemma capitalized_type_string:
  "capitalized (type_string cube) = ''Cube''"
  "capitalized (type_string sphere) = ''Sphere''"
  "capitalized (type_string cylinder) = ''Cylinder''"
  "capitalized (type_string cone) = ''Cone''"
  "capitalized (type_string d20) = ''D20''"
  by code_simp+

section \<open>Properties\<close>

subsection \<open>Lookup\<close>

text \<open>
  Claim C4. On every forest of the declared type, \<open>findComponentById\<close> returns (it is a
  total function and the result is never an exception) the first node, in depth-first
  pre-order, whose id is the one asked for; when no node at any depth has that id, it
  returns \<^verbatim>\<open>null\<close>.
\<close>

theorem findComponentById_first_in_preorder:
  assumes "well_typed f"
  shows "findComponentById f i = Inr (List.find (\<lambda>c. cid c = i) (preorder f))
    \<and> (\<forall>k < length (preorder f).
          cid (preorder f ! k) = i \<and> (\<forall>j < k. cid (preorder f ! j) \<noteq> i)
          \<longrightarrow> findComponentById f i = Inr (Some (preorder f ! k)))
    \<and> (i \<notin> set (ids f) \<longrightarrow> findComponentById f i = Inr None)"
proof -
  have eq: "findComponentById f i = Inr (List.find (\<lambda>c. cid c = i) (preorder f))"
    using assms by (rule find_is_preorder_find)
  have first: "findComponentById f i = Inr (Some (preorder f ! k))"
    if "k < length (preorder f)" "cid (preorder f ! k) = i" "\<forall>j < k. cid (preorder f ! j) \<noteq> i"
    for k
  proof -
    have "List.find (\<lambda>c. cid c = i) (preorder f) = Some (preorder f ! k)"
      unfolding find_Some_iff using that by blast
    with eq show ?thesis by simp
  qed
  have none: "findComponentById f i = Inr None" if "i \<notin> set (ids f)"
  proof -
    have "List.find (\<lambda>c. cid c = i) (preorder f) = None"
      unfolding find_None_iff using that by (auto simp: ids_def)
    with eq show ?thesis by simp
  qed
  from eq first none show ?thesis by blast
qed

theorem findComponentById_first_in_preorder_witness:
  "well_typed [Some ex_group, Some ex_sphere]
    \<and> 2 < length (preorder [Some ex_group, Some ex_sphere])
    \<and> cid (preorder [Some ex_group, Some ex_sphere] ! 2) = ''s1''
    \<and> cid (preorder [Some ex_group, Some ex_sphere] ! 0) \<noteq> ''s1''
    \<and> cid (preorder [Some ex_group, Some ex_sphere] ! 1) \<noteq> ''s1''
    \<and> findComponentById [Some ex_group, Some ex_sphere] ''s1''
        = Inr (Some (preorder [Some ex_group, Some ex_sphere] ! 2))
    \<and> ''zz'' \<notin> set (ids [Some ex_group, Some ex_sphere])
    \<and> findComponentById [Some ex_group, Some ex_sphere] ''zz'' = Inr None"
proof -
  have wt: "well_typed [Some ex_group, Some ex_sphere]"
    by (simp add: ex_group_def ex_sphere_def ex_cube_def newComponent_def)
  have pre: "preorder [Some ex_group, Some ex_sphere] = [ex_group, ex_cube, ex_sphere, ex_sphere]"
    by (simp add: ex_group_def ex_sphere_def ex_cube_def newComponent_def)
  have ids: "cid ex_group = ''g1''" "cid ex_cube = ''c1''" "cid ex_sphere = ''s1''"
    by (simp_all add: ex_group_def ex_sphere_def ex_cube_def newComponent_def)
  have hyp: "2 < length (preorder [Some ex_group, Some ex_sphere])
      \<and> cid (preorder [Some ex_group, Some ex_sphere] ! 2) = ''s1''
      \<and> (\<forall>j < 2. cid (preorder [Some ex_group, Some ex_sphere] ! j) \<noteq> ''s1'')"
    unfolding pre by (auto simp: ids less_Suc_eq numeral_2_eq_2)
  have zz: "''zz'' \<notin> set (ids [Some ex_group, Some ex_sphere])"
    unfolding ids_def pre by (simp add: ids)
  have low: "cid (preorder [Some ex_group, Some ex_sphere] ! 0) \<noteq> ''s1''"
    "cid (preorder [Some ex_group, Some ex_sphere] ! 1) \<noteq> ''s1''"
    unfolding pre by (simp_all add: ids)
  show ?thesis
    using wt hyp low zz findComponentById_first_in_preorder [OF wt, of "''s1''"]
      findComponentById_first_in_preorder [OF wt, of "''zz''"]
    by blast
qed

subsection \<open>Adding a root\<close>

text \<open>
  Claim C5. \<open>addPrimitive\<close> appends exactly one node at the end of the root sequence:
  it has the drawn token as id, the requested type, the capitalised type string as name,
  position and rotation \<open>(0,0,0)\<close>, scale \<open>(1,1,1)\<close> and no children. Every node of
  the old forest is found at its old path. When the old forest has the declared type and
  the token does not occur in it, looking the token up in the new forest gives the new
  node.
\<close>

theorem addPrimitive_appends_default_node:
  "addPrimitive token k f = f @ [Some (newComponent token k)]
    \<and> cid (newComponent token k) = token
    \<and> ctype (newComponent token k) = Prim k
    \<and> name (newComponent token k) =
        (case k of cube \<Rightarrow> ''Cube'' | sphere \<Rightarrow> ''Sphere'' | cylinder \<Rightarrow> ''Cylinder''
         | cone \<Rightarrow> ''Cone'' | d20 \<Rightarrow> ''D20'')
    \<and> position (newComponent token k) = (0, 0, 0)
    \<and> rotation (newComponent token k) = (0, 0, 0)
    \<and> scale (newComponent token k) = (1, 1, 1)
    \<and> children (newComponent token k) = []
    \<and> (\<forall>p. node_at f p \<noteq> None \<longrightarrow> node_at (addPrimitive token k f) p = node_at f p)
    \<and> (well_typed f \<and> token \<notin> set (ids f)
        \<longrightarrow> findComponentById (addPrimitive token k f) token = Inr (Some (newComponent token k)))"
proof -
  have nm: "name (newComponent token k) =
        (case k of cube \<Rightarrow> ''Cube'' | sphere \<Rightarrow> ''Sphere'' | cylinder \<Rightarrow> ''Cylinder''
         | cone \<Rightarrow> ''Cone'' | d20 \<Rightarrow> ''D20'')"
    by (cases k) (simp_all add: newComponent_def capitalized_type_string del: type_string.simps)
  have old: "node_at (addPrimitive token k f) p = node_at f p" if "node_at f p \<noteq> None" for p
    using that by (simp add: addPrimitive_def node_at_append)
  have fnd: "findComponentById (addPrimitive token k f) token = Inr (Some (newComponent token k))"
    if "well_typed f" "token \<notin> set (ids f)"
  proof -
    have "well_typed (addPrimitive token k f)"
      using that(1) by (simp add: addPrimitive_def well_typed_append newComponent_def)
    moreover have "List.find (\<lambda>c. cid c = token) (preorder f) = None"
      unfolding find_None_iff using that(2) by (auto simp: ids_def)
    ultimately show ?thesis
      by (simp add: find_is_preorder_find addPrimitive_def preorder_append find_append_case
          newComponent_def)
  qed
  show ?thesis
    using nm old fnd by (simp add: addPrimitive_def newComponent_def)
qed

theorem addPrimitive_appends_default_node_witness:
  "node_at [Some ex_cube] [0] \<noteq> None
    \<and> well_typed [Some ex_cube] \<and> ''s1'' \<notin> set (ids [Some ex_cube])
    \<and> node_at (addPrimitive ''s1'' sphere [Some ex_cube]) [0] = node_at [Some ex_cube] [0]
    \<and> findComponentById (addPrimitive ''s1'' sphere [Some ex_cube]) ''s1''
        = Inr (Some (newComponent ''s1'' sphere))"
proof -
  have h: "node_at [Some ex_cube] [0] \<noteq> None" "well_typed [Some ex_cube]"
    "''s1'' \<notin> set (ids [Some ex_cube])"
    by (simp_all add: ex_cube_def newComponent_def ids_def)
  show ?thesis
    using h addPrimitive_appends_default_node [of "''s1''" sphere "[Some ex_cube]"]
    by blast
qed

subsection \<open>Materialisation\<close>

text \<open>
  Claim C7. Take any node \<open>c\<close> with at least one child, anywhere in a sequence of
  siblings \<open>pre @ Some c # post\<close> of the declared type (the root sequence, or the
  children that a recursive call visits). \<open>buildScene\<close> succeeds, and what it adds to
  the parent object is: the objects \<open>P\<close> of the earlier siblings, then the objects of
  \<open>c\<close>, then the objects \<open>R\<close> of the later siblings. The objects of \<open>c\<close> end with a
  group that holds exactly the materialisation \<open>g\<close> of the children of \<open>c\<close>. When
  \<open>c\<close> is a group node that group is all there is, with no mesh; when \<open>c\<close> has a leaf
  type there is one mesh, immediately followed by the group as its sibling.
\<close>

theorem buildScene_children_in_container:
  assumes "well_typed (pre @ Some c # post)" and "children c \<noteq> []"
  shows "\<exists>P g R. buildScene pre [] = Inr P \<and> buildScene (children c) [] = Inr g
           \<and> buildScene post [] = Inr R
           \<and> (ctype c = group \<longrightarrow>
                 (\<forall>parent. buildScene (pre @ Some c # post) parent
                    = Inr (parent @ P @ [Group g] @ R)))
           \<and> (\<forall>k. ctype c = Prim k \<longrightarrow>
                 (\<exists>geo. \<forall>parent. buildScene (pre @ Some c # post) parent
                    = Inr (parent @ P
                        @ [Mesh geo (MeshStandardMaterial ''white'') (position c) (rotation c) (scale c),
                           Group g]
                        @ R)))"
proof -
  obtain P g R where pgr: "buildScene pre [] = Inr P" "buildScene (children c) [] = Inr g"
    "buildScene post [] = Inr R"
    and all: "\<And>parent. buildScene (pre @ Some c # post) parent
                 = Inr (parent @ P @ node_objects c g @ R)"
    using buildScene_split [OF assms(1)] by blast
  have grp: "node_objects c g = [Group g]" if "ctype c = group"
    using that assms(2) by (simp add: node_objects_def)
  have leaf: "\<exists>geo. node_objects c g
      = [Mesh geo (MeshStandardMaterial ''white'') (position c) (rotation c) (scale c), Group g]"
    if "ctype c = Prim k" for k
    using that assms(2) by (cases k) (simp_all add: node_objects_def)
  show ?thesis
  proof (intro exI conjI)
    show "buildScene pre [] = Inr P" "buildScene (children c) [] = Inr g"
      "buildScene post [] = Inr R"
      by (fact pgr)+
    show "ctype c = group \<longrightarrow>
        (\<forall>parent. buildScene (pre @ Some c # post) parent = Inr (parent @ P @ [Group g] @ R))"
      using all grp by simp
    show "\<forall>k. ctype c = Prim k \<longrightarrow>
        (\<exists>geo. \<forall>parent. buildScene (pre @ Some c # post) parent
           = Inr (parent @ P
               @ [Mesh geo (MeshStandardMaterial ''white'') (position c) (rotation c) (scale c),
                  Group g]
               @ R))"
    proof (intro allI impI)
      fix k assume "ctype c = Prim k"
      from leaf [OF this] obtain geo where "node_objects c g
        = [Mesh geo (MeshStandardMaterial ''white'') (position c) (rotation c) (scale c), Group g]"
        by blast
      with all show "\<exists>geo. \<forall>parent. buildScene (pre @ Some c # post) parent
           = Inr (parent @ P
               @ [Mesh geo (MeshStandardMaterial ''white'') (position c) (rotation c) (scale c),
                  Group g]
               @ R)"
        by auto
    qed
  qed
qed

theorem buildScene_children_in_container_witness:
  "well_typed ([Some ex_group] @ Some ex_cone # []) \<and> children ex_cone \<noteq> []
    \<and> ctype ex_cone = Prim cone \<and> ctype ex_group = group \<and> children ex_group \<noteq> []
    \<and> well_typed ([] @ Some ex_group # [Some ex_cone])
    \<and> (\<exists>P g R. buildScene [Some ex_group] [] = Inr P \<and> buildScene (children ex_cone) [] = Inr g
          \<and> buildScene [] [] = Inr R
          \<and> (\<exists>geo. \<forall>parent. buildScene ([Some ex_group] @ Some ex_cone # []) parent
                = Inr (parent @ P
                    @ [Mesh geo (MeshStandardMaterial ''white'') (position ex_cone)
                         (rotation ex_cone) (scale ex_cone),
                       Group g]
                    @ R)))
    \<and> (\<exists>P g R. buildScene [] [] = Inr P \<and> buildScene (children ex_group) [] = Inr g
          \<and> buildScene [Some ex_cone] [] = Inr R
          \<and> (\<forall>parent. buildScene ([] @ Some ex_group # [Some ex_cone]) parent
                = Inr (parent @ P @ [Group g] @ R)))"
proof -
  have h1: "well_typed ([Some ex_group] @ Some ex_cone # [])" "children ex_cone \<noteq> []"
    and h2: "well_typed ([] @ Some ex_group # [Some ex_cone])" "children ex_group \<noteq> []"
    and t: "ctype ex_cone = Prim cone" "ctype ex_group = group"
    by (simp_all add: ex_group_def ex_cone_def ex_sphere_def ex_cube_def newComponent_def)
  show ?thesis
    using h1 h2 t buildScene_children_in_container [OF h1] buildScene_children_in_container [OF h2]
    by blast
qed

text \<open>
  Claim C8. For every node \<open>c\<close> of a leaf type \<open>k\<close>, in a sequence of siblings of the
  declared type, \<open>buildScene\<close> succeeds and adds for \<open>c\<close> exactly one mesh to the parent
  object, after the objects of the earlier siblings. Its geometry is the one of the type:
  a box \<open>(1,1,1)\<close> for a cube, a sphere of radius 1 with 32 by 32 segments, a cylinder of
  radii 1, height 2 and 32 radial segments, a cone of radius 1, height 2 and 32 radial
  segments, an icosahedron of radius 1 and detail 0. Its position, rotation and scale are
  those of \<open>c\<close>. The mesh is followed by the group of the children of \<open>c\<close>, if it has
  any, and then by the objects of the later siblings.
\<close>

theorem buildScene_leaf_mesh:
  assumes "well_typed (pre @ Some c # post)" and "ctype c = Prim k"
  shows "\<exists>P g R. buildScene pre [] = Inr P \<and> buildScene (children c) [] = Inr g
           \<and> buildScene post [] = Inr R
           \<and> (\<forall>parent. buildScene (pre @ Some c # post) parent
                 = Inr (parent @ P
                     @ Mesh (case k of
                               cube \<Rightarrow> BoxGeometry 1 1 1
                             | sphere \<Rightarrow> SphereGeometry 1 32 32
                             | cylinder \<Rightarrow> CylinderGeometry 1 1 2 32
                             | cone \<Rightarrow> ConeGeometry 1 2 32
                             | d20 \<Rightarrow> IcosahedronGeometry 1 0)
                         (MeshStandardMaterial ''white'') (position c) (rotation c) (scale c)
                     # (if children c = [] then [] else [Group g]) @ R))"
proof -
  obtain P g R where pgr: "buildScene pre [] = Inr P" "buildScene (children c) [] = Inr g"
    "buildScene post [] = Inr R"
    and all: "\<And>parent. buildScene (pre @ Some c # post) parent
                 = Inr (parent @ P @ node_objects c g @ R)"
    using buildScene_split [OF assms(1)] by blast
  have "node_objects c g
      = Mesh (case k of
                cube \<Rightarrow> BoxGeometry 1 1 1
              | sphere \<Rightarrow> SphereGeometry 1 32 32
              | cylinder \<Rightarrow> CylinderGeometry 1 1 2 32
              | cone \<Rightarrow> ConeGeometry 1 2 32
              | d20 \<Rightarrow> IcosahedronGeometry 1 0)
          (MeshStandardMaterial ''white'') (position c) (rotation c) (scale c)
        # (if children c = [] then [] else [Group g])"
    using assms(2) by (cases k) (simp_all add: node_objects_def)
  with pgr all show ?thesis by auto
qed

theorem buildScene_leaf_mesh_witness:
  "well_typed ([Some ex_group] @ Some ex_cone # [Some ex_cube]) \<and> ctype ex_cone = Prim cone
    \<and> buildScene ([Some ex_group] @ Some ex_cone # [Some ex_cube]) []
        = Inr [Group [Mesh (BoxGeometry 1 1 1) (MeshStandardMaterial ''white'')
                        (0, 0, 0) (0, 0, 0) (1, 1, 1),
                      Mesh (SphereGeometry 1 32 32) (MeshStandardMaterial ''white'')
                        (0, 0, 0) (0, 0, 0) (1, 1, 1)],
               Mesh (ConeGeometry 1 2 32) (MeshStandardMaterial ''white'')
                 (2, 0, 0) (0, 1, 0) (1, 1, 3),
               Group [Mesh (SphereGeometry 1 32 32) (MeshStandardMaterial ''white'')
                        (0, 0, 0) (0, 0, 0) (1, 1, 1)],
               Mesh (BoxGeometry 1 1 1) (MeshStandardMaterial ''white'')
                 (0, 0, 0) (0, 0, 0) (1, 1, 1)]"
proof -
  have h: "well_typed ([Some ex_group] @ Some ex_cone # [Some ex_cube])"
    "ctype ex_cone = Prim cone"
    by (simp_all add: ex_group_def ex_cone_def ex_sphere_def ex_cube_def newComponent_def)
  have P: "buildScene [Some ex_group] [] = Inr [Group [Mesh (BoxGeometry 1 1 1)
      (MeshStandardMaterial ''white'') (0, 0, 0) (0, 0, 0) (1, 1, 1),
      Mesh (SphereGeometry 1 32 32) (MeshStandardMaterial ''white'') (0, 0, 0) (0, 0, 0) (1, 1, 1)]]"
    by (simp add: buildScene_Some buildScene_Nil node_objects_def ex_group_def ex_sphere_def
        ex_cube_def newComponent_def)
  have g: "buildScene (children ex_cone) [] = Inr [Mesh (SphereGeometry 1 32 32)
      (MeshStandardMaterial ''white'') (0, 0, 0) (0, 0, 0) (1, 1, 1)]"
    by (simp add: buildScene_Some buildScene_Nil node_objects_def ex_cone_def ex_sphere_def
        newComponent_def)
  have R: "buildScene [Some ex_cube] [] = Inr [Mesh (BoxGeometry 1 1 1)
      (MeshStandardMaterial ''white'') (0, 0, 0) (0, 0, 0) (1, 1, 1)]"
    by (simp add: buildScene_Some buildScene_Nil node_objects_def ex_cube_def newComponent_def)
  have f: "position ex_cone = (2, 0, 0)" "rotation ex_cone = (0, 1, 0)" "scale ex_cone = (1, 1, 3)"
    "children ex_cone \<noteq> []"
    by (simp_all add: ex_cone_def)
  from buildScene_leaf_mesh [OF h] P g R f
  have "buildScene ([Some ex_group] @ Some ex_cone # [Some ex_cube]) []
        = Inr [Group [Mesh (BoxGeometry 1 1 1) (MeshStandardMaterial ''white'')
                        (0, 0, 0) (0, 0, 0) (1, 1, 1),
                      Mesh (SphereGeometry 1 32 32) (MeshStandardMaterial ''white'')
                        (0, 0, 0) (0, 0, 0) (1, 1, 1)],
               Mesh (ConeGeometry 1 2 32) (MeshStandardMaterial ''white'')
                 (2, 0, 0) (0, 1, 0) (1, 1, 3),
               Group [Mesh (SphereGeometry 1 32 32) (MeshStandardMaterial ''white'')
                        (0, 0, 0) (0, 0, 0) (1, 1, 1)],
               Mesh (BoxGeometry 1 1 1) (MeshStandardMaterial ''white'')
                 (0, 0, 0) (0, 0, 0) (1, 1, 1)]"
    by auto
  with h show ?thesis by blast
qed

subsection \<open>Reordering\<close>

lemma splice_start_le: "splice_start i n \<le> n"
  by (auto simp: splice_start_def)

lemma splice_start_beyond: "int n \<le> i \<Longrightarrow> splice_start i n = n"
  by (simp add: splice_start_def)

lemma splice_start_in_range: "0 \<le> i \<Longrightarrow> i \<le> int n \<Longrightarrow> splice_start i n = nat i"
  by (simp add: splice_start_def)

lemma reorderList_beyond:
  "int (length xs) \<le> fromIndex \<Longrightarrow>
     reorderList fromIndex toIndex xs
       = take (splice_start toIndex (length xs)) xs @ None # drop (splice_start toIndex (length xs)) xs"
  using splice_start_le [of toIndex "length xs"]
  by (simp add: reorderList_def splice_start_beyond Let_def)

text \<open>
  Claim C9. For a sibling sequence \<open>xs\<close> of length \<open>n\<close> and \<open>fromIndex \<ge> n\<close>,
  \<open>reorderList\<close> removes nothing and inserts \<^verbatim>\<open>undefined\<close> at the position that
  \<^verbatim>\<open>splice\<close> makes of \<open>toIndex\<close> (which is \<open>toIndex\<close> itself when
  \<open>0 \<le> toIndex \<le> n\<close>): the result has \<open>n + 1\<close> entries, one more \<^verbatim>\<open>undefined\<close>
  entry than \<open>xs\<close>, and differs from \<open>xs\<close>. No error is signalled: \<open>reorder\<close> on the
  root sequence returns that list as the new forest.
\<close>

theorem reorderList_from_out_of_range:
  assumes "int (length xs) \<le> fromIndex"
  shows "reorderList fromIndex toIndex xs
           = take (splice_start toIndex (length xs)) xs
             @ None # drop (splice_start toIndex (length xs)) xs
    \<and> length (reorderList fromIndex toIndex xs) = length xs + 1
    \<and> count_list (reorderList fromIndex toIndex xs) None = count_list xs None + 1
    \<and> reorderList fromIndex toIndex xs \<noteq> xs
    \<and> (0 \<le> toIndex \<and> toIndex \<le> int (length xs)
         \<longrightarrow> reorderList fromIndex toIndex xs ! nat toIndex = None)
    \<and> reorder None fromIndex toIndex xs = Inr (reorderList fromIndex toIndex xs)"
proof -
  let ?t = "splice_start toIndex (length xs)"
  have eq: "reorderList fromIndex toIndex xs = take ?t xs @ None # drop ?t xs"
    using assms by (rule reorderList_beyond)
  have len: "length (reorderList fromIndex toIndex xs) = length xs + 1"
    using splice_start_le [of toIndex "length xs"] by (simp add: eq)
  have "count_list (take ?t xs @ drop ?t xs) None = count_list xs None"
    by simp
  then have cnt: "count_list (reorderList fromIndex toIndex xs) None = count_list xs None + 1"
    unfolding eq by (simp del: append_take_drop_id)
  have neq: "reorderList fromIndex toIndex xs \<noteq> xs"
    using len by (metis Suc_eq_plus1 n_not_Suc_n)
  have at: "reorderList fromIndex toIndex xs ! nat toIndex = None"
    if "0 \<le> toIndex" "toIndex \<le> int (length xs)"
  proof -
    have "?t = nat toIndex" using that by (rule splice_start_in_range)
    moreover have "nat toIndex \<le> length xs" using that by simp
    ultimately show ?thesis by (simp add: eq nth_append)
  qed
  have "reorder None fromIndex toIndex xs = Inr (reorderList fromIndex toIndex xs)"
    by (simp add: reorder_def falsy_def)
  with eq len cnt neq at show ?thesis by blast
qed

theorem reorderList_from_out_of_range_witness:
  "int (length [Some ex_cube, Some ex_sphere]) \<le> 2
    \<and> (0::int) \<le> 1 \<and> 1 \<le> int (length [Some ex_cube, Some ex_sphere])
    \<and> reorderList 2 1 [Some ex_cube, Some ex_sphere] = [Some ex_cube, None, Some ex_sphere]
    \<and> reorderList 2 1 [Some ex_cube, Some ex_sphere] ! nat 1 = None
    \<and> reorder None 2 1 [Some ex_cube, Some ex_sphere]
        = Inr (reorderList 2 1 [Some ex_cube, Some ex_sphere])"
proof -
  have h: "int (length [Some ex_cube, Some ex_sphere]) \<le> 2"
    "(0::int) \<le> 1" "1 \<le> int (length [Some ex_cube, Some ex_sphere])"
    by simp_all
  have t: "splice_start 1 (length [Some ex_cube, Some ex_sphere]) = 1"
    by (simp add: splice_start_def)
  have "reorderList 2 1 [Some ex_cube, Some ex_sphere]
      = take 1 [Some ex_cube, Some ex_sphere] @ None # drop 1 [Some ex_cube, Some ex_sphere]"
    using reorderList_from_out_of_range [OF h(1), of 1] unfolding t by blast
  then have "reorderList 2 1 [Some ex_cube, Some ex_sphere] = [Some ex_cube, None, Some ex_sphere]"
    by simp
  then show ?thesis
    using h reorderList_from_out_of_range [OF h(1), of 1] by blast
qed

subsection \<open>Unfolding the recursive updates\<close>

lemma with_children_same [simp]: "with_children c (children c) = c"
  by (cases c) (simp add: with_children_def)

lemma with_children_sel [simp]:
  "cid (with_children c cs) = cid c" "name (with_children c cs) = name c"
  "ctype (with_children c cs) = ctype c" "position (with_children c cs) = position c"
  "rotation (with_children c cs) = rotation c" "scale (with_children c cs) = scale c"
  "children (with_children c cs) = cs"
  by (simp_all add: with_children_def)

lemma updateRecursive_Nil: "updateRecursive u [] = Inr []"
  by simp

lemma updateRecursive_None: "updateRecursive u (None # cs) = Inl TypeError"
  by simp

lemma updateRecursive_Some:
  "updateRecursive u (Some c # cs) =
     (case (if cid c = cid u then Inr (Some u)
            else if children c \<noteq> [] then
              (case updateRecursive u (children c) of
                 Inl e \<Rightarrow> Inl e
               | Inr ch \<Rightarrow> Inr (Some (with_children c ch)))
            else Inr (Some c)) of
        Inl e \<Rightarrow> Inl e
      | Inr y \<Rightarrow> (case updateRecursive u cs of Inl e \<Rightarrow> Inl e | Inr ys \<Rightarrow> Inr (y # ys)))"
proof -
  let ?F = "\<lambda>slot. case slot of
            None \<Rightarrow> Inl TypeError
          | Some cmp \<Rightarrow>
              if cid cmp = cid u then Inr (Some u)
              else if length (children cmp) > 0 then
                (case updateRecursive u (children cmp) of
                   Inl e \<Rightarrow> Inl e
                 | Inr cs \<Rightarrow> Inr (Some (with_children cmp cs)))
              else Inr (Some cmp)"
  have unf: "updateRecursive u xs = map_throw ?F xs" for xs
    by (rule updateRecursive.simps)
  have "updateRecursive u (Some c # cs)
      = (case ?F (Some c) of
           Inl e \<Rightarrow> Inl e
         | Inr y \<Rightarrow> (case map_throw ?F cs of Inl e \<Rightarrow> Inl e | Inr ys \<Rightarrow> Inr (y # ys)))"
    unfolding unf [of "Some c # cs"] by (rule map_throw.simps)
  also have "map_throw ?F cs = updateRecursive u cs"
    by (rule unf [symmetric])
  finally show ?thesis
    by (simp del: updateRecursive.simps)
qed

declare updateRecursive.simps [simp del]

lemma reorder_updateRecursive_falsy:
  "falsy p \<Longrightarrow> reorder_updateRecursive p a b f = Inr (reorderList a b f)"
  by simp

lemma reorder_updateRecursive_Nil:
  "\<not> falsy p \<Longrightarrow> reorder_updateRecursive p a b [] = Inr []"
  by simp

lemma reorder_updateRecursive_None:
  "\<not> falsy p \<Longrightarrow> reorder_updateRecursive p a b (None # cs) = Inl TypeError"
  by simp

lemma reorder_updateRecursive_Some:
  assumes "\<not> falsy p"
  shows "reorder_updateRecursive p a b (Some c # cs) =
     (case (if Some (cid c) = p then Inr (Some (with_children c (reorderList a b (children c))))
            else if children c \<noteq> [] then
              (case reorder_updateRecursive p a b (children c) of
                 Inl e \<Rightarrow> Inl e
               | Inr ch \<Rightarrow> Inr (Some (with_children c ch)))
            else Inr (Some c)) of
        Inl e \<Rightarrow> Inl e
      | Inr y \<Rightarrow> (case reorder_updateRecursive p a b cs of
                    Inl e \<Rightarrow> Inl e
                  | Inr ys \<Rightarrow> Inr (y # ys)))"
proof -
  let ?F = "\<lambda>slot. case slot of
               None \<Rightarrow> Inl TypeError
             | Some cmp \<Rightarrow>
                 if Some (cid cmp) = p then
                   Inr (Some (with_children cmp (reorderList a b (children cmp))))
                 else if length (children cmp) > 0 then
                   (case reorder_updateRecursive p a b (children cmp) of
                      Inl e \<Rightarrow> Inl e
                    | Inr cs \<Rightarrow> Inr (Some (with_children cmp cs)))
                 else Inr (Some cmp)"
  have unf: "reorder_updateRecursive p a b xs = map_throw ?F xs" for xs
    using assms by (subst reorder_updateRecursive.simps) (simp del: reorder_updateRecursive.simps)
  have "reorder_updateRecursive p a b (Some c # cs)
      = (case ?F (Some c) of
           Inl e \<Rightarrow> Inl e
         | Inr y \<Rightarrow> (case map_throw ?F cs of Inl e \<Rightarrow> Inl e | Inr ys \<Rightarrow> Inr (y # ys)))"
    unfolding unf [of "Some c # cs"] by (rule map_throw.simps)
  also have "map_throw ?F cs = reorder_updateRecursive p a b cs"
    by (rule unf [symmetric])
  finally show ?thesis
    by (simp del: reorder_updateRecursive.simps)
qed

declare reorder_updateRecursive.simps [simp del]

lemma ids_Nil [simp]: "ids [] = []"
  by (simp add: ids_def)

lemma ids_None [simp]: "ids (None # cs) = ids cs"
  by (simp add: ids_def)

lemma ids_Some [simp]: "ids (Some c # cs) = cid c # ids (children c) @ ids cs"
  by (simp add: ids_def)

lemma updateRecursive_absent:
  "well_typed f \<Longrightarrow> cid u \<notin> set (ids f) \<Longrightarrow> updateRecursive u f = Inr f"
  by (induction f rule: well_typed.induct)
     (auto simp: updateRecursive_Nil updateRecursive_Some)

lemma reorder_updateRecursive_absent:
  "well_typed f \<Longrightarrow> \<not> falsy (Some i) \<Longrightarrow> i \<notin> set (ids f)
     \<Longrightarrow> reorder_updateRecursive (Some i) a b f = Inr f"
  by (induction f rule: well_typed.induct)
     (auto simp: reorder_updateRecursive_Nil reorder_updateRecursive_Some)

text \<open>
  Claim C3, as amended. For every forest \<open>f\<close> of the declared type and every id \<open>i\<close>
  that occurs nowhere in \<open>f\<close>: \<open>updateComponent\<close> with a node whose id is \<open>i\<close> returns
  \<open>f\<close>, and, when \<open>i\<close> is not the empty string, \<open>reorder\<close> with \<open>parentId = i\<close> returns
  \<open>f\<close> for all indices; neither raises an error. (The empty string is falsy, so
  \<^verbatim>\<open>!parentId\<close> sends it to the root sequence, as \<^verbatim>\<open>null\<close>.)
\<close>

theorem absent_id_leaves_forest_unchanged:
  assumes "well_typed f" and "i \<notin> set (ids f)"
  shows "(cid u = i \<longrightarrow> updateComponent u f = Inr f)
    \<and> (i \<noteq> [] \<longrightarrow> reorder (Some i) fromIndex toIndex f = Inr f)"
  using assms
  by (simp add: updateComponent_def reorder_def updateRecursive_absent
      reorder_updateRecursive_absent falsy_def)

theorem absent_id_leaves_forest_unchanged_witness:
  "well_typed [Some ex_cube, Some ex_sphere] \<and> ''zz'' \<notin> set (ids [Some ex_cube, Some ex_sphere])
    \<and> cid (newComponent ''zz'' cone) = ''zz'' \<and> ''zz'' \<noteq> []
    \<and> updateComponent (newComponent ''zz'' cone) [Some ex_cube, Some ex_sphere]
        = Inr [Some ex_cube, Some ex_sphere]
    \<and> reorder (Some ''zz'') 1 0 [Some ex_cube, Some ex_sphere]
        = Inr [Some ex_cube, Some ex_sphere]"
proof -
  have h: "well_typed [Some ex_cube, Some ex_sphere]"
    "''zz'' \<notin> set (ids [Some ex_cube, Some ex_sphere])"
    and k: "cid (newComponent ''zz'' cone) = ''zz''" "''zz'' \<noteq> []"
    by (simp_all add: ex_cube_def ex_sphere_def newComponent_def)
  show ?thesis
    using h k absent_id_leaves_forest_unchanged [OF h, of "newComponent ''zz'' cone" 1 0]
    by blast
qed

text \<open>
  Claim C3 as stated fails for the empty string, which occurs nowhere in the two-root
  forest of a cube and a sphere: \<open>reorder\<close> with \<open>parentId = \<close>\<^verbatim>\<open>""\<close> swaps the roots.
\<close>

theorem reorder_empty_parentId_changes_forest:
  "well_typed [Some ex_cube, Some ex_sphere]
    \<and> [] \<notin> set (ids [Some ex_cube, Some ex_sphere])
    \<and> reorder (Some []) 1 0 [Some ex_cube, Some ex_sphere] = Inr [Some ex_sphere, Some ex_cube]
    \<and> reorder (Some []) 1 0 [Some ex_cube, Some ex_sphere] \<noteq> Inr [Some ex_cube, Some ex_sphere]"
  by (simp add: reorder_def reorder_updateRecursive_falsy falsy_def reorderList_def
      splice_start_def ex_cube_def ex_sphere_def newComponent_def)

lemma mset_insert_at: "mset (take n r @ x # drop n r) = add_mset x (mset r)"
proof -
  have "mset (take n r) + mset (drop n r) = mset (take n r @ drop n r)"
    by (rule mset_append [symmetric])
  then have "mset (take n r) + mset (drop n r) = mset r"
    by (simp only: append_take_drop_id)
  then show ?thesis by simp
qed

lemma mset_remove_at:
  assumes "i < length xs"
  shows "add_mset (xs ! i) (mset (take i xs @ drop (Suc i) xs)) = mset xs"
proof -
  have "mset xs = mset (take i xs @ xs ! i # drop (Suc i) xs)"
    using id_take_nth_drop [OF assms] by simp
  then show ?thesis by simp
qed

lemma nth_insert_at:
  "n \<le> length r \<Longrightarrow>
     (take n r @ x # drop n r) ! k = (if k < n then r ! k else if k = n then x else r ! (k - 1))"
  by (auto simp: nth_append nth_Cons' min_def)

lemma nth_remove_at:
  "i < length xs \<Longrightarrow>
     (take i xs @ drop (Suc i) xs) ! k = (if k < i then xs ! k else xs ! (k + 1))"
  by (auto simp: nth_append min_def)

lemma length_remove_at: "i < length xs \<Longrightarrow> length (take i xs @ drop (Suc i) xs) = length xs - 1"
  by auto

lemma reorderList_in_range_eq:
  assumes "0 \<le> a" "a < int (length xs)" "0 \<le> b" "b < int (length xs)"
  shows "reorderList a b xs
     = take (nat b) (take (nat a) xs @ drop (Suc (nat a)) xs)
       @ xs ! nat a # drop (nat b) (take (nat a) xs @ drop (Suc (nat a)) xs)"
proof -
  define r where "r = take (nat a) xs @ drop (nat a + 1) xs"
  have la: "nat a < length xs" and lb: "nat b < length xs"
    using assms by simp_all
  have s: "splice_start a (length xs) = nat a"
    using assms by (simp add: splice_start_def)
  have lr: "length r = length xs - 1"
    unfolding r_def using length_remove_at [OF la] by simp
  have t: "splice_start b (length r) = nat b"
    unfolding lr using assms by (auto simp: splice_start_def)
  have rem: "take 1 (drop (nat a) xs) = [xs ! nat a]"
    using Cons_nth_drop_Suc [OF la, symmetric] by simp
  have "reorderList a b xs
      = take (splice_start b (length r)) r
        @ (case take 1 (drop (nat a) xs) of [] \<Rightarrow> None | m # _ \<Rightarrow> m)
        # drop (splice_start b (length r)) r"
    unfolding reorderList_def Let_def s r_def by (rule refl)
  then have "reorderList a b xs = take (nat b) r @ xs ! nat a # drop (nat b) r"
    unfolding t rem by simp
  then show ?thesis
    unfolding r_def by simp
qed

lemma reorderList_in_range_mset:
  assumes "0 \<le> a" "a < int (length xs)" "0 \<le> b" "b < int (length xs)"
  shows "mset (reorderList a b xs) = mset xs"
proof -
  have la: "nat a < length xs"
    using assms by simp
  show ?thesis
    unfolding reorderList_in_range_eq [OF assms] mset_insert_at
    by (rule mset_remove_at [OF la])
qed

lemma reorderList_in_range_moved:
  assumes "0 \<le> a" "a < int (length xs)" "0 \<le> b" "b < int (length xs)"
  shows "moved_to (nat a) (nat b) xs (reorderList a b xs)"
proof -
  let ?r = "take (nat a) xs @ drop (Suc (nat a)) xs"
  have la: "nat a < length xs" and lb: "nat b < length xs"
    using assms by simp_all
  have lr: "length ?r = length xs - 1"
    using la by (rule length_remove_at)
  have br: "nat b \<le> length ?r"
    unfolding lr using lb by simp
  have len: "length (reorderList a b xs) = length xs"
  proof -
    have "size (mset (reorderList a b xs)) = size (mset xs)"
      by (simp only: reorderList_in_range_mset [OF assms])
    then show ?thesis by simp
  qed
  have nth: "reorderList a b xs ! k =
           (if k = nat b then xs ! nat a
            else if k < min (nat a) (nat b) \<or> max (nat a) (nat b) < k then xs ! k
            else if nat a < nat b then xs ! (k + 1)
            else xs ! (k - 1))" if "k < length xs" for k
    unfolding reorderList_in_range_eq [OF assms] nth_insert_at [OF br]
    using la lb that by (auto simp: nth_remove_at)
  show ?thesis
    unfolding moved_to_def list_all_iff using len nth by simp
qed

subsection \<open>Paths\<close>

lemma node_at_Cons_0:
  "node_at (s # f) (0 # q) =
     (if q = [] then s else (case s of None \<Rightarrow> None | Some c \<Rightarrow> node_at (children c) q))"
  by (cases q; cases s) simp_all

lemma node_at_Cons_Suc: "node_at (s # f) (Suc k # q) = node_at f (k # q)"
  by (cases q) simp_all

lemma ancestors_Cons_0:
  "ancestors (s # f) (0 # q) =
     (if q = [] then [] else (case s of None \<Rightarrow> [] | Some c \<Rightarrow> c # ancestors (children c) q))"
  by (cases q; cases s) simp_all

lemma ancestors_Cons_Suc: "ancestors (s # f) (Suc k # q) = ancestors f (k # q)"
  by (cases q) simp_all

lemma node_at_Nil [simp]: "node_at [] q = None"
  by (cases "([] :: forest, q)" rule: node_at.cases) simp_all

lemma reorder_updateRecursive_total:
  "well_typed f \<Longrightarrow> \<not> falsy p \<Longrightarrow>
     \<exists>f'. reorder_updateRecursive p a b f = Inr f' \<and> length f' = length f"
  by (induction f rule: well_typed.induct)
     (auto simp: reorder_updateRecursive_Nil reorder_updateRecursive_Some)

lemma reorder_updateRecursive_path:
  assumes "\<not> falsy (Some i)"
  shows "well_typed f \<Longrightarrow> node_at f q = Some x \<Longrightarrow> cid x = i
     \<Longrightarrow> i \<notin> cid ` set (ancestors f q)
     \<Longrightarrow> \<exists>f'. reorder_updateRecursive (Some i) a b f = Inr f' \<and> length f' = length f
           \<and> node_at f' q = Some (with_children x (reorderList a b (children x)))"
proof (induction f arbitrary: q rule: well_typed.induct)
  case 1
  then show ?case by simp
next
  case (2 cs)
  then show ?case by simp
next
  case (3 c cs)
  note nf = assms
  from "3.prems"(1) have wt: "well_typed (children c)" "well_typed cs"
    by simp_all
  obtain cs' where cs': "reorder_updateRecursive (Some i) a b cs = Inr cs'" "length cs' = length cs"
    using reorder_updateRecursive_total [OF wt(2) nf] by blast
  show ?case
  proof (cases q)
    case Nil
    with "3.prems" show ?thesis by simp
  next
    case (Cons k q')
    show ?thesis
    proof (cases k)
      case 0
      show ?thesis
      proof (cases "q' = []")
        case True
        with "3.prems" Cons 0 have "x = c" by simp
        with "3.prems"(3) cs' True Cons 0 show ?thesis
          by (simp add: reorder_updateRecursive_Some [OF nf])
      next
        case False
        with "3.prems" Cons 0 have sub: "node_at (children c) q' = Some x"
          and anc: "cid c \<noteq> i" "i \<notin> cid ` set (ancestors (children c) q')"
          by (auto simp: node_at_Cons_0 ancestors_Cons_0)
        from sub have ne: "children c \<noteq> []" by auto
        from "3.IH"(1) [OF wt(1) sub "3.prems"(3) anc(2)]
        obtain ch' where ch': "reorder_updateRecursive (Some i) a b (children c) = Inr ch'"
          "length ch' = length (children c)"
          "node_at ch' q' = Some (with_children x (reorderList a b (children x)))"
          by blast
        show ?thesis
          using cs' ch' anc(1) ne False Cons 0
          by (simp add: reorder_updateRecursive_Some [OF nf] node_at_Cons_0)
      qed
    next
      case (Suc k')
      with "3.prems" Cons have sub: "node_at cs (k' # q') = Some x"
        and anc: "i \<notin> cid ` set (ancestors cs (k' # q'))"
        by (simp_all add: node_at_Cons_Suc ancestors_Cons_Suc)
      from "3.IH"(2) [OF wt(2) sub "3.prems"(3) anc]
      obtain cs'' where cs'': "reorder_updateRecursive (Some i) a b cs = Inr cs''"
        "length cs'' = length cs"
        "node_at cs'' (k' # q') = Some (with_children x (reorderList a b (children x)))"
        by blast
      obtain y where y: "(if Some (cid c) = Some i
            then Inr (Some (with_children c (reorderList a b (children c))))
            else if children c \<noteq> [] then
              (case reorder_updateRecursive (Some i) a b (children c) of
                 Inl e \<Rightarrow> Inl e
               | Inr ch \<Rightarrow> Inr (Some (with_children c ch)))
            else Inr (Some c)) = Inr y"
      proof -
        from reorder_updateRecursive_total [OF wt(1) nf, of a b]
        obtain ch where "reorder_updateRecursive (Some i) a b (children c) = Inr ch"
          by blast
        then have "\<exists>y. (if Some (cid c) = Some i
            then Inr (Some (with_children c (reorderList a b (children c))))
            else if children c \<noteq> [] then
              (case reorder_updateRecursive (Some i) a b (children c) of
                 Inl e \<Rightarrow> Inl e
               | Inr ch \<Rightarrow> Inr (Some (with_children c ch)))
            else Inr (Some c)) = Inr y"
          by simp
        then show ?thesis using that by blast
      qed
      show ?thesis
        using cs'' y Cons Suc
        by (simp add: reorder_updateRecursive_Some [OF nf] node_at_Cons_Suc)
    qed
  qed
qed

lemma node_at_ids: "node_at f q = Some x \<Longrightarrow> cid x \<in> set (ids f)"
proof (induction f arbitrary: q rule: preorder.induct)
  case 1
  then show ?case by simp
next
  case (2 cs)
  then show ?case
    by (cases q; cases "hd q") (auto simp: node_at_Cons_0 node_at_Cons_Suc split: if_splits)
next
  case (3 c cs)
  show ?case
  proof (cases q)
    case Nil
    with "3.prems" show ?thesis by simp
  next
    case (Cons k q')
    with "3.prems" "3.IH" show ?thesis
      by (cases k) (auto simp: node_at_Cons_0 node_at_Cons_Suc split: if_splits)
  qed
qed

lemma distinct_ids_no_ancestor:
  "distinct (ids f) \<Longrightarrow> node_at f q = Some x \<Longrightarrow> cid x \<notin> cid ` set (ancestors f q)"
proof (induction f arbitrary: q rule: preorder.induct)
  case 1
  then show ?case by simp
next
  case (2 cs)
  then show ?case
    by (cases q; cases "hd q") (auto simp: node_at_Cons_0 node_at_Cons_Suc ancestors_Cons_Suc
        split: if_splits)
next
  case (3 c cs)
  show ?case
  proof (cases q)
    case Nil
    with "3.prems" show ?thesis by simp
  next
    case (Cons k q')
    show ?thesis
    proof (cases k)
      case 0
      show ?thesis
      proof (cases "q' = []")
        case True
        with Cons 0 show ?thesis by simp
      next
        case False
        with "3.prems" Cons 0 have sub: "node_at (children c) q' = Some x"
          by (simp add: node_at_Cons_0)
        from "3.prems"(1) have d: "distinct (ids (children c))" "cid c \<notin> set (ids (children c))"
          by simp_all
        from node_at_ids [OF sub] d(2) have "cid x \<noteq> cid c" by auto
        with "3.IH"(1) [OF d(1) sub] False Cons 0 show ?thesis
          by (simp add: ancestors_Cons_0)
      qed
    next
      case (Suc k')
      with "3.prems" Cons "3.IH"(2) [of "k' # q'"] show ?thesis
        by (simp add: node_at_Cons_Suc ancestors_Cons_Suc)
    qed
  qed
qed

text \<open>
  Claim C2, as amended. Let \<open>fromIndex = a\<close> and \<open>toIndex = b\<close> be in range of the
  sibling sequence that \<open>reorder\<close> selects. That sequence is the root sequence when
  \<open>parentId\<close> is \<^verbatim>\<open>null\<close> or the empty string. For a non-empty \<open>parentId = i\<close> and a
  forest of the declared type it is the child sequence of the node \<open>x\<close> with id \<open>i\<close>
  (found at path \<open>q\<close>; when ids are not unique, of each such node that has no ancestor
  with id \<open>i\<close>). Then \<open>reorder\<close> succeeds and the new sequence \<open>ys\<close> is the old one with
  the element at \<open>a\<close> moved to \<open>b\<close>, the elements in between shifted by one; it has
  the same multiset of entries, hence of ids. Adding a cube, then a sphere, then
  \<open>reorder(null, 1, 0)\<close> gives the roots sphere, cube.
\<close>

theorem reorder_moves_element:
  "(falsy p \<and> 0 \<le> a \<and> a < int (length f) \<and> 0 \<le> b \<and> b < int (length f) \<longrightarrow>
      (\<exists>ys. reorder p a b f = Inr ys \<and> moved_to (nat a) (nat b) f ys \<and> mset ys = mset f
         \<and> mset (map (map_option cid) ys) = mset (map (map_option cid) f)))
   \<and> (well_typed f \<and> i \<noteq> [] \<and> node_at f q = Some x \<and> cid x = i
        \<and> (distinct (ids f) \<or> i \<notin> cid ` set (ancestors f q))
        \<and> 0 \<le> a \<and> a < int (length (children x)) \<and> 0 \<le> b \<and> b < int (length (children x)) \<longrightarrow>
      (\<exists>f' ys. reorder (Some i) a b f = Inr f' \<and> node_at f' q = Some (with_children x ys)
         \<and> moved_to (nat a) (nat b) (children x) ys \<and> mset ys = mset (children x)
         \<and> mset (map (map_option cid) ys) = mset (map (map_option cid) (children x))))
   \<and> reorder None 1 0 (addPrimitive t2 sphere (addPrimitive t1 cube []))
        = Inr [Some (newComponent t2 sphere), Some (newComponent t1 cube)]"
proof (intro conjI impI)
  assume h: "falsy p \<and> 0 \<le> a \<and> a < int (length f) \<and> 0 \<le> b \<and> b < int (length f)"
  then have r: "0 \<le> a" "a < int (length f)" "0 \<le> b" "b < int (length f)"
    by simp_all
  have "reorder p a b f = Inr (reorderList a b f)"
    using h by (simp add: reorder_def reorder_updateRecursive_falsy)
  moreover have "moved_to (nat a) (nat b) f (reorderList a b f)"
    using r by (rule reorderList_in_range_moved)
  moreover have m: "mset (reorderList a b f) = mset f"
    using r by (rule reorderList_in_range_mset)
  moreover have "mset (map (map_option cid) (reorderList a b f)) = mset (map (map_option cid) f)"
    using m by (metis mset_map)
  ultimately show "\<exists>ys. reorder p a b f = Inr ys \<and> moved_to (nat a) (nat b) f ys
      \<and> mset ys = mset f \<and> mset (map (map_option cid) ys) = mset (map (map_option cid) f)"
    by blast
next
  assume h: "well_typed f \<and> i \<noteq> [] \<and> node_at f q = Some x \<and> cid x = i
        \<and> (distinct (ids f) \<or> i \<notin> cid ` set (ancestors f q))
        \<and> 0 \<le> a \<and> a < int (length (children x)) \<and> 0 \<le> b \<and> b < int (length (children x))"
  then have r: "0 \<le> a" "a < int (length (children x))" "0 \<le> b" "b < int (length (children x))"
    and wt: "well_typed f" and nf: "\<not> falsy (Some i)"
    and x: "node_at f q = Some x" "cid x = i"
    by (simp_all add: falsy_def)
  have anc: "i \<notin> cid ` set (ancestors f q)"
    using h distinct_ids_no_ancestor [OF _ x(1)] x(2) by blast
  obtain f' where f': "reorder_updateRecursive (Some i) a b f = Inr f'"
    "node_at f' q = Some (with_children x (reorderList a b (children x)))"
    using reorder_updateRecursive_path [OF nf wt x anc] by blast
  have m: "mset (reorderList a b (children x)) = mset (children x)"
    using r by (rule reorderList_in_range_mset)
  have "mset (map (map_option cid) (reorderList a b (children x)))
      = mset (map (map_option cid) (children x))"
    using m by (metis mset_map)
  with f' m reorderList_in_range_moved [OF r]
  show "\<exists>f' ys. reorder (Some i) a b f = Inr f' \<and> node_at f' q = Some (with_children x ys)
         \<and> moved_to (nat a) (nat b) (children x) ys \<and> mset ys = mset (children x)
         \<and> mset (map (map_option cid) ys) = mset (map (map_option cid) (children x))"
    unfolding reorder_def by blast
next
  show "reorder None 1 0 (addPrimitive t2 sphere (addPrimitive t1 cube []))
        = Inr [Some (newComponent t2 sphere), Some (newComponent t1 cube)]"
    by (simp add: reorder_def reorder_updateRecursive_falsy falsy_def addPrimitive_def
        reorderList_def splice_start_def)
qed

theorem reorder_moves_element_witness:
  "falsy None \<and> (0::int) \<le> 1 \<and> 1 < int (length [Some ex_group, Some ex_cone])
    \<and> (0::int) \<le> 0 \<and> 0 < int (length [Some ex_group, Some ex_cone])
    \<and> well_typed [Some ex_group, Some ex_cone] \<and> ''g1'' \<noteq> []
    \<and> node_at [Some ex_group, Some ex_cone] [0] = Some ex_group \<and> cid ex_group = ''g1''
    \<and> ''g1'' \<notin> cid ` set (ancestors [Some ex_group, Some ex_cone] [0])
    \<and> 1 < int (length (children ex_group)) \<and> 0 < int (length (children ex_group))
    \<and> (\<exists>ys. reorder None 1 0 [Some ex_group, Some ex_cone] = Inr ys
          \<and> moved_to (nat 1) (nat 0) [Some ex_group, Some ex_cone] ys)
    \<and> (\<exists>f' ys. reorder (Some ''g1'') 1 0 [Some ex_group, Some ex_cone] = Inr f'
          \<and> node_at f' [0] = Some (with_children ex_group ys)
          \<and> moved_to (nat 1) (nat 0) (children ex_group) ys)"
proof -
  have h1: "falsy None" "(0::int) \<le> 1" "1 < int (length [Some ex_group, Some ex_cone])"
    "(0::int) \<le> 0" "0 < int (length [Some ex_group, Some ex_cone])"
    by (simp_all add: falsy_def)
  have h2: "well_typed [Some ex_group, Some ex_cone]" "''g1'' \<noteq> []"
    "node_at [Some ex_group, Some ex_cone] [0] = Some ex_group" "cid ex_group = ''g1''"
    "''g1'' \<notin> cid ` set (ancestors [Some ex_group, Some ex_cone] [0])"
    "1 < int (length (children ex_group))" "0 < int (length (children ex_group))"
    by (simp_all add: ex_group_def ex_cone_def ex_cube_def ex_sphere_def newComponent_def)
  show ?thesis
    using h1 h2
      reorder_moves_element [of None 1 "[Some ex_group, Some ex_cone]" 0 "''g1''" "[0]" ex_group]
    by blast
qed

text \<open>
  Claim C2 as stated fails when \<open>parentId\<close> is the empty string and a node has that id:
  the indices 0 and 1 are in range of the children of that node, but \<open>reorder\<close> works on
  the root sequence and leaves the children in their old order.
\<close>

theorem reorder_empty_parentId_not_children:
  "node_at [Some ex_anon] [0] = Some ex_anon \<and> cid ex_anon = []
    \<and> (0::int) < int (length (children ex_anon)) \<and> 1 < int (length (children ex_anon))
    \<and> reorder (Some []) 0 1 [Some ex_anon] = Inr [Some ex_anon]
    \<and> \<not> moved_to 0 1 (children ex_anon) (children ex_anon)"
  by (simp add: reorder_def reorder_updateRecursive_falsy falsy_def reorderList_def
      splice_start_def moved_to_def ex_anon_def ex_cube_def ex_sphere_def newComponent_def)

subsection \<open>Replacing one node\<close>

lemma replaced_at_nonempty: "replaced_at f f' p u \<Longrightarrow> p \<noteq> []"
  by (auto simp: replaced_at_def)

lemma replaced_here: "replaced_at (Some c # cs) (Some u # cs) [0] u"
  unfolding replaced_at_def
proof (intro conjI allI impI)
  show "node_at (Some u # cs) [0] = Some u" by simp
next
  fix q :: "nat list"
  assume "\<not> prefix [0] q"
  then show "map_option fields (node_at (Some u # cs) q)
      = map_option fields (node_at (Some c # cs) q)"
    by (cases q; cases "hd q") (auto simp: node_at_Cons_Suc)
next
  fix q :: "nat list"
  assume "\<not> prefix [0] q \<and> \<not> prefix q [0]"
  then show "node_at (Some u # cs) q = node_at (Some c # cs) q"
    by (cases q; cases "hd q") (auto simp: node_at_Cons_Suc)
qed

lemma replaced_down:
  assumes "replaced_at (children c) ch' p u" and "length ch' = length (children c)"
  shows "replaced_at (Some c # cs) (Some (with_children c ch') # cs) (0 # p) u"
proof -
  from assms(1) have ne: "p \<noteq> []" by (rule replaced_at_nonempty)
  from assms(1) have at: "node_at ch' p = Some u"
    and fld: "\<And>q. \<not> prefix p q \<Longrightarrow>
          map_option fields (node_at ch' q) = map_option fields (node_at (children c) q)"
    and same: "\<And>q. \<not> prefix p q \<Longrightarrow> \<not> prefix q p \<Longrightarrow> node_at ch' q = node_at (children c) q"
    by (auto simp: replaced_at_def)
  have top: "fields (with_children c ch') = fields c"
    using assms(2) by (simp add: fields_def)
  show ?thesis
    unfolding replaced_at_def
  proof (intro conjI allI impI)
    show "node_at (Some (with_children c ch') # cs) (0 # p) = Some u"
      using ne at by (simp add: node_at_Cons_0)
  next
    fix q :: "nat list"
    assume np: "\<not> prefix (0 # p) q"
    show "map_option fields (node_at (Some (with_children c ch') # cs) q)
        = map_option fields (node_at (Some c # cs) q)"
    proof (cases q)
      case Nil
      then show ?thesis by simp
    next
      case (Cons k q')
      show ?thesis
      proof (cases k)
        case 0
        with np Cons have "\<not> prefix p q'" by simp
        with fld [of q'] top Cons 0 show ?thesis
          by (simp add: node_at_Cons_0)
      next
        case (Suc k')
        with Cons show ?thesis by (simp add: node_at_Cons_Suc)
      qed
    qed
  next
    fix q :: "nat list"
    assume np: "\<not> prefix (0 # p) q \<and> \<not> prefix q (0 # p)"
    show "node_at (Some (with_children c ch') # cs) q = node_at (Some c # cs) q"
    proof (cases q)
      case Nil
      then show ?thesis by simp
    next
      case (Cons k q')
      show ?thesis
      proof (cases k)
        case 0
        with np Cons have "\<not> prefix p q'" "\<not> prefix q' p" by simp_all
        moreover from this have "q' \<noteq> []" by auto
        ultimately show ?thesis
          using same [of q'] Cons 0 by (simp add: node_at_Cons_0)
      next
        case (Suc k')
        with Cons show ?thesis by (simp add: node_at_Cons_Suc)
      qed
    qed
  qed
qed

lemma replaced_right:
  assumes "replaced_at cs cs' (k # r) u"
  shows "replaced_at (s # cs) (s # cs') (Suc k # r) u"
proof -
  from assms have at: "node_at cs' (k # r) = Some u"
    and fld: "\<And>q. \<not> prefix (k # r) q \<Longrightarrow>
          map_option fields (node_at cs' q) = map_option fields (node_at cs q)"
    and same: "\<And>q. \<not> prefix (k # r) q \<Longrightarrow> \<not> prefix q (k # r)
          \<Longrightarrow> node_at cs' q = node_at cs q"
    by (auto simp: replaced_at_def)
  show ?thesis
    unfolding replaced_at_def
  proof (intro conjI allI impI)
    show "node_at (s # cs') (Suc k # r) = Some u"
      using at by (simp add: node_at_Cons_Suc)
  next
    fix q :: "nat list"
    assume np: "\<not> prefix (Suc k # r) q"
    show "map_option fields (node_at (s # cs') q) = map_option fields (node_at (s # cs) q)"
    proof (cases q)
      case Nil
      then show ?thesis by simp
    next
      case (Cons j q')
      show ?thesis
      proof (cases j)
        case 0
        with Cons show ?thesis by (simp add: node_at_Cons_0)
      next
        case (Suc j')
        with np Cons have "\<not> prefix (k # r) (j' # q')" by simp
        with fld [of "j' # q'"] Cons Suc show ?thesis
          by (simp add: node_at_Cons_Suc)
      qed
    qed
  next
    fix q :: "nat list"
    assume np: "\<not> prefix (Suc k # r) q \<and> \<not> prefix q (Suc k # r)"
    show "node_at (s # cs') q = node_at (s # cs) q"
    proof (cases q)
      case Nil
      then show ?thesis by simp
    next
      case (Cons j q')
      show ?thesis
      proof (cases j)
        case 0
        with Cons show ?thesis by (simp add: node_at_Cons_0)
      next
        case (Suc j')
        with np Cons have "\<not> prefix (k # r) (j' # q')" "\<not> prefix (j' # q') (k # r)" by simp_all
        with same [of "j' # q'"] Cons Suc show ?thesis
          by (simp add: node_at_Cons_Suc)
      qed
    qed
  qed
qed

lemma updateRecursive_unique:
  "well_typed f \<Longrightarrow> count_list (ids f) (cid u) = 1 \<Longrightarrow>
     \<exists>f' p x. updateRecursive u f = Inr f' \<and> length f' = length f
       \<and> node_at f p = Some x \<and> cid x = cid u \<and> replaced_at f f' p u"
proof (induction f rule: well_typed.induct)
  case 1
  then show ?case by simp
next
  case (2 cs)
  then show ?case by simp
next
  case (3 c cs)
  from "3.prems"(1) have wt: "well_typed (children c)" "well_typed cs"
    by simp_all
  have "(cid c = cid u \<and> count_list (ids (children c)) (cid u) = 0
            \<and> count_list (ids cs) (cid u) = 0)
        \<or> (cid c \<noteq> cid u \<and> count_list (ids (children c)) (cid u) = 1
            \<and> count_list (ids cs) (cid u) = 0)
        \<or> (cid c \<noteq> cid u \<and> count_list (ids (children c)) (cid u) = 0
            \<and> count_list (ids cs) (cid u) = 1)"
  proof (cases "cid c = cid u")
    case True
    with "3.prems"(2) show ?thesis by simp
  next
    case False
    with "3.prems"(2)
    have "count_list (ids (children c)) (cid u) + count_list (ids cs) (cid u) = 1"
      by simp
    with False show ?thesis by arith
  qed
  then consider (here) "cid c = cid u" "cid u \<notin> set (ids cs)"
    | (down) "cid c \<noteq> cid u" "count_list (ids (children c)) (cid u) = 1" "cid u \<notin> set (ids cs)"
    | (right) "cid c \<noteq> cid u" "cid u \<notin> set (ids (children c))" "count_list (ids cs) (cid u) = 1"
    unfolding count_list_0_iff by blast
  then show ?case
  proof cases
    case here
    have "updateRecursive u (Some c # cs) = Inr (Some u # cs)"
      using here updateRecursive_absent [OF wt(2) here(2)]
      by (simp add: updateRecursive_Some)
    moreover have "node_at (Some c # cs) [0] = Some c"
      by simp
    moreover have "length (Some u # cs) = length (Some c # cs)"
      by simp
    moreover note here(1) replaced_here [of c cs u]
    ultimately show ?thesis by blast
  next
    case down
    from "3.IH"(1) [OF wt(1) down(2)]
    obtain ch' p x where ch': "updateRecursive u (children c) = Inr ch'"
      "length ch' = length (children c)" "node_at (children c) p = Some x" "cid x = cid u"
      "replaced_at (children c) ch' p u"
      by blast
    from ch'(3) have ne: "children c \<noteq> []" "p \<noteq> []" by auto
    have "updateRecursive u (Some c # cs) = Inr (Some (with_children c ch') # cs)"
      using down(1) ne(1) ch'(1) updateRecursive_absent [OF wt(2) down(3)]
      by (simp add: updateRecursive_Some)
    moreover have "node_at (Some c # cs) (0 # p) = Some x"
      using ne(2) ch'(3) by (simp add: node_at_Cons_0)
    moreover have "length (Some (with_children c ch') # cs) = length (Some c # cs)"
      by simp
    moreover note ch'(4) replaced_down [OF ch'(5) ch'(2), of cs]
    ultimately show ?thesis by blast
  next
    case right
    from "3.IH"(2) [OF wt(2) right(3)]
    obtain cs' p x where cs': "updateRecursive u cs = Inr cs'"
      "length cs' = length cs" "node_at cs p = Some x" "cid x = cid u"
      "replaced_at cs cs' p u"
      by blast
    from cs'(3) obtain k r where p: "p = k # r" by (cases p) auto
    have "updateRecursive u (Some c # cs) = Inr (Some c # cs')"
      using right(1) cs'(1) updateRecursive_absent [OF wt(1) right(2)]
      by (simp add: updateRecursive_Some)
    moreover have "node_at (Some c # cs) (Suc k # r) = Some x"
      using cs'(3) p by (simp add: node_at_Cons_Suc)
    moreover have "length (Some c # cs') = length (Some c # cs)"
      using cs'(2) by simp
    moreover note cs'(4) replaced_right [OF cs'(5) [unfolded p], of "Some c"]
    ultimately show ?thesis by blast
  qed
qed

text \<open>
  Claim C1. Let \<open>f\<close> be a forest of the declared type in which exactly one node has the
  id of \<open>updatedComponent = u\<close>. Then \<open>updateComponent\<close> succeeds, and there is a path
  \<open>p\<close> to that node \<open>x\<close> such that in the new forest: the node at \<open>p\<close> is \<open>u\<close> itself,
  with the children that \<open>u\<close> brings; at every path \<open>q\<close> outside the subtree at \<open>p\<close>
  there is a node exactly when there was one, with the same fields and as many children
  (every other node keeps its record and its position among its siblings); and at every
  path that is neither inside that subtree nor above it, the node is the same with its
  whole subtree.
\<close>

theorem updateComponent_replaces_unique_node:
  assumes "well_typed f" and "count_list (ids f) (cid u) = 1"
  shows "\<exists>f' p x. updateComponent u f = Inr f' \<and> node_at f p = Some x \<and> cid x = cid u
    \<and> node_at f' p = Some u
    \<and> (\<forall>q. \<not> prefix p q \<longrightarrow>
          map_option fields (node_at f' q) = map_option fields (node_at f q))
    \<and> (\<forall>q. \<not> prefix p q \<and> \<not> prefix q p \<longrightarrow> node_at f' q = node_at f q)"
  using updateRecursive_unique [OF assms]
  unfolding updateComponent_def replaced_at_def by blast

theorem updateComponent_replaces_unique_node_witness:
  "well_typed [Some ex_group, Some ex_cone]
    \<and> count_list (ids [Some ex_group, Some ex_cone]) (cid (newComponent ''c1'' d20)) = 1
    \<and> (\<exists>f' p x. updateComponent (newComponent ''c1'' d20) [Some ex_group, Some ex_cone] = Inr f'
          \<and> node_at [Some ex_group, Some ex_cone] p = Some x
          \<and> cid x = cid (newComponent ''c1'' d20)
          \<and> node_at f' p = Some (newComponent ''c1'' d20))
    \<and> updateComponent (newComponent ''c1'' d20) [Some ex_group, Some ex_cone]
        = Inr [Some (with_children ex_group [Some (newComponent ''c1'' d20), Some ex_sphere]),
               Some ex_cone]
    \<and> node_at [Some ex_group, Some ex_cone] [0, 0] = Some ex_cube
    \<and> \<not> prefix [0, 0] [0, 1::nat] \<and> \<not> prefix [0, 1] [0, 0::nat] \<and> \<not> prefix [0, 0] [0::nat]
    \<and> node_at [Some (with_children ex_group [Some (newComponent ''c1'' d20), Some ex_sphere]),
                 Some ex_cone] [0, 1]
        = node_at [Some ex_group, Some ex_cone] [0, 1]
    \<and> map_option fields
          (node_at [Some (with_children ex_group [Some (newComponent ''c1'' d20), Some ex_sphere]),
                    Some ex_cone] [0])
        = map_option fields (node_at [Some ex_group, Some ex_cone] [0])"
proof -
  have h: "well_typed [Some ex_group, Some ex_cone]"
    "count_list (ids [Some ex_group, Some ex_cone]) (cid (newComponent ''c1'' d20)) = 1"
    by (simp_all add: ex_group_def ex_cone_def ex_cube_def ex_sphere_def newComponent_def)
  have e: "updateComponent (newComponent ''c1'' d20) [Some ex_group, Some ex_cone]
        = Inr [Some (with_children ex_group [Some (newComponent ''c1'' d20), Some ex_sphere]),
               Some ex_cone]"
    by (simp add: updateComponent_def updateRecursive_Some updateRecursive_Nil ex_group_def
        ex_cone_def ex_cube_def ex_sphere_def newComponent_def with_children_def)
  have q: "node_at [Some ex_group, Some ex_cone] [0, 0] = Some ex_cube"
    "\<not> prefix [0, 0] [0, 1::nat]" "\<not> prefix [0, 1] [0, 0::nat]" "\<not> prefix [0, 0] [0::nat]"
    "node_at [Some (with_children ex_group [Some (newComponent ''c1'' d20), Some ex_sphere]),
              Some ex_cone] [0, 1]
      = node_at [Some ex_group, Some ex_cone] [0, 1]"
    "map_option fields
       (node_at [Some (with_children ex_group [Some (newComponent ''c1'' d20), Some ex_sphere]),
                 Some ex_cone] [0])
      = map_option fields (node_at [Some ex_group, Some ex_cone] [0])"
    by (simp_all add: ex_group_def fields_def)
  show ?thesis
    using h e q updateComponent_replaces_unique_node [OF h] by blast
qed

subsection \<open>Uniqueness of ids\<close>

lemma ids_take_drop: "mset (ids (take n r)) + mset (ids (drop n r)) = mset (ids r)"
proof -
  have "ids (take n r) @ ids (drop n r) = ids (take n r @ drop n r)"
    by (rule ids_append [symmetric])
  then have "ids (take n r) @ ids (drop n r) = ids r"
    by (simp only: append_take_drop_id)
  then have "mset (ids (take n r) @ ids (drop n r)) = mset (ids r)"
    by (rule arg_cong)
  then show ?thesis by simp
qed

lemma ids_insert_at: "mset (ids (take n r @ m # drop n r)) = mset (ids [m]) + mset (ids r)"
proof -
  have "ids (take n r @ m # drop n r) = ids (take n r) @ ids [m] @ ids (drop n r)"
    using ids_append [of "take n r" "[m] @ drop n r"] ids_append [of "[m]" "drop n r"] by simp
  then show ?thesis
    using ids_take_drop [of n r] by (simp add: ac_simps)
qed

lemma ids_reorderList: "mset (ids (reorderList a b f)) = mset (ids f)"
proof -
  define s where "s = splice_start a (length f)"
  define r where "r = take s f @ drop (s + 1) f"
  define m where "m = (case take 1 (drop s f) of [] \<Rightarrow> None | x # _ \<Rightarrow> x)"
  have eq: "reorderList a b f
      = take (splice_start b (length r)) r @ m # drop (splice_start b (length r)) r"
    unfolding reorderList_def Let_def s_def r_def m_def by (rule refl)
  have "mset (ids [m]) + mset (ids r) = mset (ids f)"
  proof (cases "s < length f")
    case True
    then have "take 1 (drop s f) = [f ! s]"
      using Cons_nth_drop_Suc [OF True, symmetric] by simp
    then have m: "m = f ! s" by (simp add: m_def)
    have "ids f = ids (take s f @ [f ! s] @ drop (Suc s) f)"
      using id_take_nth_drop [OF True] by simp
    also have "\<dots> = ids (take s f) @ ids [f ! s] @ ids (drop (Suc s) f)"
      by (simp only: ids_append)
    finally have "mset (ids f) = mset (ids (take s f)) + mset (ids [f ! s]) + mset (ids (drop (Suc s) f))"
      by simp
    moreover have "mset (ids r) = mset (ids (take s f)) + mset (ids (drop (Suc s) f))"
      unfolding r_def by (simp add: ids_append)
    ultimately show ?thesis
      using m by simp
  next
    case False
    then have "m = None" "r = f"
      by (simp_all add: m_def r_def)
    then show ?thesis by simp
  qed
  then show ?thesis
    unfolding eq ids_insert_at .
qed

lemma ids_reorder_updateRecursive:
  "reorder_updateRecursive p a b f = Inr f' \<Longrightarrow> mset (ids f') = mset (ids f)"
proof (cases "falsy p")
  case True
  assume "reorder_updateRecursive p a b f = Inr f'"
  with True have "f' = reorderList a b f"
    by (simp add: reorder_updateRecursive_falsy)
  then show ?thesis
    by (simp only: ids_reorderList)
next
  case nf: False
  show "reorder_updateRecursive p a b f = Inr f' \<Longrightarrow> mset (ids f') = mset (ids f)"
  proof (induction f arbitrary: f' rule: preorder.induct)
    case 1
    then show ?case by (simp add: reorder_updateRecursive_Nil [OF nf])
  next
    case (2 cs)
    then show ?case by (simp add: reorder_updateRecursive_None [OF nf])
  next
    case (3 c cs)
    from "3.prems" obtain y cs' where f': "f' = y # cs'"
      and cs': "reorder_updateRecursive p a b cs = Inr cs'"
      and y: "(if Some (cid c) = p then Inr (Some (with_children c (reorderList a b (children c))))
            else if children c \<noteq> [] then
              (case reorder_updateRecursive p a b (children c) of
                 Inl e \<Rightarrow> Inl e
               | Inr ch \<Rightarrow> Inr (Some (with_children c ch)))
            else Inr (Some c)) = Inr y"
      unfolding reorder_updateRecursive_Some [OF nf] by (auto split: sum.splits)
    have "mset (ids [y]) = mset (ids [Some c])"
    proof (cases "Some (cid c) = p")
      case True
      with y show ?thesis by (auto simp: ids_reorderList)
    next
      case False
      show ?thesis
      proof (cases "children c = []")
        case True
        with y False show ?thesis by auto
      next
        case ne: False
        with y False obtain ch where ch: "reorder_updateRecursive p a b (children c) = Inr ch"
          "y = Some (with_children c ch)"
          by (auto split: sum.splits)
        from "3.IH"(1) [OF ch(1)] ch(2) show ?thesis by simp
      qed
    qed
    moreover have "mset (ids cs') = mset (ids cs)"
      using cs' by (rule "3.IH"(2))
    moreover have "ids (y # cs') = ids [y] @ ids cs'" "ids (Some c # cs) = ids [Some c] @ ids cs"
      using ids_append [of "[y]" cs'] ids_append [of "[Some c]" cs] by simp_all
    ultimately show ?case
      unfolding f' by (simp del: ids_Some)
  qed
qed

lemma updateRecursive_Cons_Inr:
  assumes "updateRecursive u (Some c # cs) = Inr f'"
  obtains y cs' where "f' = y # cs'" "updateRecursive u cs = Inr cs'"
    "(if cid c = cid u then Inr (Some u)
      else if children c \<noteq> [] then
        (case updateRecursive u (children c) of
           Inl e \<Rightarrow> Inl e
         | Inr ch \<Rightarrow> Inr (Some (with_children c ch)))
      else Inr (Some c)) = Inr y"
  using assms unfolding updateRecursive_Some by (auto split: sum.splits)

lemma updateRecursive_absent_well_typed:
  "updateRecursive u f = Inr f' \<Longrightarrow> cid u \<notin> set (ids f) \<Longrightarrow> well_typed f"
proof (induction f arbitrary: f' rule: preorder.induct)
  case 1
  then show ?case by simp
next
  case (2 cs)
  then show ?case by (simp add: updateRecursive_None)
next
  case (3 c cs)
  from "3.prems"(1) obtain y cs' where cs': "updateRecursive u cs = Inr cs'"
    and y: "(if cid c = cid u then Inr (Some u)
      else if children c \<noteq> [] then
        (case updateRecursive u (children c) of
           Inl e \<Rightarrow> Inl e
         | Inr ch \<Rightarrow> Inr (Some (with_children c ch)))
      else Inr (Some c)) = Inr y"
    by (rule updateRecursive_Cons_Inr)
  from "3.prems"(2) have ab: "cid c \<noteq> cid u" "cid u \<notin> set (ids (children c))"
    "cid u \<notin> set (ids cs)"
    by auto
  have "well_typed (children c)"
  proof (cases "children c = []")
    case True
    then show ?thesis by simp
  next
    case False
    with y ab(1) obtain ch where "updateRecursive u (children c) = Inr ch"
      by (auto split: sum.splits)
    then show ?thesis using ab(2) by (rule "3.IH"(1))
  qed
  moreover have "well_typed cs"
    using cs' ab(3) by (rule "3.IH"(2))
  ultimately show ?case by simp
qed

lemma updateRecursive_ids:
  "updateRecursive u f = Inr f' \<Longrightarrow> distinct (ids f) \<Longrightarrow> cid u \<in> set (ids f) \<Longrightarrow>
     \<exists>x. findComponentById f (cid u) = Inr (Some x)
       \<and> mset (ids f') + mset (ids [Some x]) = mset (ids f) + mset (ids [Some u])"
proof (induction f arbitrary: f' rule: preorder.induct)
  case 1
  then show ?case by simp
next
  case (2 cs)
  then show ?case by (simp add: updateRecursive_None)
next
  case (3 c cs)
  from "3.prems"(1) obtain y cs' where f': "f' = y # cs'"
    and cs': "updateRecursive u cs = Inr cs'"
    and y: "(if cid c = cid u then Inr (Some u)
      else if children c \<noteq> [] then
        (case updateRecursive u (children c) of
           Inl e \<Rightarrow> Inl e
         | Inr ch \<Rightarrow> Inr (Some (with_children c ch)))
      else Inr (Some c)) = Inr y"
    by (rule updateRecursive_Cons_Inr)
  from "3.prems"(2) have d: "cid c \<notin> set (ids (children c))" "cid c \<notin> set (ids cs)"
    "distinct (ids (children c))" "distinct (ids cs)"
    "set (ids (children c)) \<inter> set (ids cs) = {}"
    by auto
  have split: "ids (y # cs') = ids [y] @ ids cs'"
    using ids_append [of "[y]" cs'] by simp
  consider (here) "cid c = cid u"
    | (down) "cid c \<noteq> cid u" "cid u \<in> set (ids (children c))"
    | (right) "cid c \<noteq> cid u" "cid u \<notin> set (ids (children c))" "cid u \<in> set (ids cs)"
    using "3.prems"(3) by auto
  then show ?case
  proof cases
    case here
    with d(2) have "cid u \<notin> set (ids cs)" by simp
    with cs' have wt: "well_typed cs" by (rule updateRecursive_absent_well_typed)
    have "cs' = cs"
      using cs' updateRecursive_absent [OF wt \<open>cid u \<notin> set (ids cs)\<close>] by simp
    moreover from y here have "y = Some u" by simp
    moreover have "findComponentById (Some c # cs) (cid u) = Inr (Some c)"
      using here by simp
    ultimately show ?thesis
      unfolding f' by simp
  next
    case down
    with d(5) have ab: "cid u \<notin> set (ids cs)" by auto
    with cs' have wt: "well_typed cs" by (rule updateRecursive_absent_well_typed)
    have same: "cs' = cs"
      using cs' updateRecursive_absent [OF wt ab] by simp
    from down(2) have ne: "children c \<noteq> []" by auto
    with y down(1) obtain ch where ch: "updateRecursive u (children c) = Inr ch"
      "y = Some (with_children c ch)"
      by (auto split: sum.splits)
    from "3.IH"(1) [OF ch(1) d(3) down(2)]
    obtain x where x: "findComponentById (children c) (cid u) = Inr (Some x)"
      "mset (ids ch) + mset (ids [Some x]) = mset (ids (children c)) + mset (ids [Some u])"
      by blast
    have "findComponentById (Some c # cs) (cid u) = Inr (Some x)"
      using down(1) x(1) by simp
    moreover have "mset (ids f') + mset (ids [Some x])
        = mset (ids (Some c # cs)) + mset (ids [Some u])"
      using x(2) unfolding f' same ch(2) by (simp add: ac_simps)
    ultimately show ?thesis by blast
  next
    case right
    have wtc: "well_typed (children c)"
    proof (cases "children c = []")
      case True
      then show ?thesis by simp
    next
      case False
      with y right(1) obtain ch where "updateRecursive u (children c) = Inr ch"
        by (auto split: sum.splits)
      then show ?thesis using right(2) by (rule updateRecursive_absent_well_typed)
    qed
    have yc: "y = Some c"
      using y right(1) updateRecursive_absent [OF wtc right(2)] by (auto split: if_splits)
    have "List.find (\<lambda>c. cid c = cid u) (preorder (children c)) = None"
      unfolding find_None_iff using right(2) unfolding ids_def set_map by (metis imageI)
    then have none: "findComponentById (children c) (cid u) = Inr None"
      by (simp add: find_is_preorder_find [OF wtc])
    from "3.IH"(2) [OF cs' d(4) right(3)]
    obtain x where x: "findComponentById cs (cid u) = Inr (Some x)"
      "mset (ids cs') + mset (ids [Some x]) = mset (ids cs) + mset (ids [Some u])"
      by blast
    have "findComponentById (Some c # cs) (cid u) = Inr (Some x)"
      using right(1) none x(1) by simp
    moreover have "mset (ids f') + mset (ids [Some x])
        = mset (ids (Some c # cs)) + mset (ids [Some u])"
      using x(2) unfolding f' yc by (simp add: ac_simps)
    ultimately show ?thesis by blast
  qed
qed

lemma count_le_one_distinct: "(\<And>a. count (mset xs) a \<le> 1) \<Longrightarrow> distinct xs"
  by (meson count_greater_eq_one_iff count_mset_0_iff distinct_count_atmost_1
      in_multiset_in_set nle_le)

lemma distinct_count_le_one: "distinct xs \<Longrightarrow> count (mset xs) a \<le> 1"
  by (simp add: distinct_count_atmost_1)

lemma distinct_after_exchange:
  assumes eq: "mset new + mset x = mset old + mset u"
    and "distinct old" and "distinct u" and "set u \<inter> set old \<subseteq> set x"
  shows "distinct new"
proof (rule count_le_one_distinct)
  fix a
  have sum: "count (mset new) a + count (mset x) a = count (mset old) a + count (mset u) a"
    using arg_cong [OF eq, of "\<lambda>m. count m a"] by simp
  have le: "count (mset old) a \<le> 1" "count (mset u) a \<le> 1"
    using distinct_count_le_one [OF assms(2)] distinct_count_le_one [OF assms(3)] by simp_all
  show "count (mset new) a \<le> 1"
  proof (cases "a \<in> set u \<and> a \<in> set old")
    case True
    with assms(4) have "a \<in> set x" by auto
    then have "1 \<le> count (mset x) a"
      by (simp add: count_greater_eq_one_iff)
    with sum le show ?thesis by arith
  next
    case False
    then have "count (mset old) a = 0 \<or> count (mset u) a = 0"
      by (auto simp: count_mset_0_iff)
    with sum le show ?thesis by arith
  qed
qed

lemma step_keeps_ids_distinct:
  assumes "distinct (ids f)" and "op_ok oper f" and "apply_operation oper f = Inr f'"
  shows "distinct (ids f')"
proof (cases oper)
  case (AddRoot token type)
  with assms show ?thesis
    by (auto simp: addPrimitive_def ids_append newComponent_def)
next
  case (UpdateById u)
  with assms have upd: "updateRecursive u f = Inr f'" and mem: "cid u \<in> set (ids f)"
    and du: "distinct (ids [Some u])"
    by (simp_all add: updateComponent_def)
  from updateRecursive_ids [OF upd assms(1) mem]
  obtain x where x: "findComponentById f (cid u) = Inr (Some x)"
    "mset (ids f') + mset (ids [Some x]) = mset (ids f) + mset (ids [Some u])"
    by blast
  from assms(2) UpdateById x(1)
  have "set (ids [Some u]) \<inter> set (ids f) \<subseteq> set (ids [Some x])"
    by (simp del: ids_Some)
  with x(2) assms(1) du show ?thesis
    by (rule distinct_after_exchange)
next
  case (Reorder parentId fromIndex toIndex)
  with assms(3) have "mset (ids f') = mset (ids f)"
    by (simp add: reorder_def ids_reorder_updateRecursive)
  with assms(1) show ?thesis
    by (metis mset_eq_imp_distinct_iff)
qed

text \<open>
  Claim C6, as amended. Starting from the empty forest, every sequence of the operations
  addRoot with a token that does not occur in the forest, updateById with an id already
  in the forest and a replacement node whose ids are pairwise distinct and occur in the
  forest only inside the subtree that is replaced, and reorder (any arguments) keeps the
  ids of the forest pairwise distinct.
\<close>

theorem reachable_ids_distinct:
  "reachable f \<Longrightarrow> distinct (ids f)"
proof (induction rule: reachable.induct)
  case empty
  show ?case by simp
next
  case (step f oper f')
  then show ?case by (simp add: step_keeps_ids_distinct)
qed

theorem reachable_ids_distinct_witness:
  "reachable [Some (newComponent ''s1'' sphere), Some (newComponent ''c1'' d20)]
    \<and> distinct (ids [Some (newComponent ''s1'' sphere), Some (newComponent ''c1'' d20)])"
proof -
  have "reachable []"
    by (rule reachable.empty)
  moreover have "op_ok (AddRoot ''c1'' cube) []"
    "apply_operation (AddRoot ''c1'' cube) [] = Inr [Some (newComponent ''c1'' cube)]"
    by (simp_all add: addPrimitive_def)
  ultimately have r1: "reachable [Some (newComponent ''c1'' cube)]"
    by (rule reachable.step)
  have "op_ok (AddRoot ''s1'' sphere) [Some (newComponent ''c1'' cube)]"
    "apply_operation (AddRoot ''s1'' sphere) [Some (newComponent ''c1'' cube)]
       = Inr [Some (newComponent ''c1'' cube), Some (newComponent ''s1'' sphere)]"
    by (simp_all add: addPrimitive_def newComponent_def)
  with r1 have r2: "reachable [Some (newComponent ''c1'' cube), Some (newComponent ''s1'' sphere)]"
    by (rule reachable.step)
  have "op_ok (UpdateById (newComponent ''c1'' d20))
          [Some (newComponent ''c1'' cube), Some (newComponent ''s1'' sphere)]"
    "apply_operation (UpdateById (newComponent ''c1'' d20))
          [Some (newComponent ''c1'' cube), Some (newComponent ''s1'' sphere)]
       = Inr [Some (newComponent ''c1'' d20), Some (newComponent ''s1'' sphere)]"
    by (simp_all add: updateComponent_def updateRecursive_Some updateRecursive_Nil
        newComponent_def)
  with r2 have r3: "reachable [Some (newComponent ''c1'' d20), Some (newComponent ''s1'' sphere)]"
    by (rule reachable.step)
  have "op_ok (Reorder None 1 0) [Some (newComponent ''c1'' d20), Some (newComponent ''s1'' sphere)]"
    "apply_operation (Reorder None 1 0)
          [Some (newComponent ''c1'' d20), Some (newComponent ''s1'' sphere)]
       = Inr [Some (newComponent ''s1'' sphere), Some (newComponent ''c1'' d20)]"
    by (simp_all add: reorder_def reorder_updateRecursive_falsy falsy_def reorderList_def
        splice_start_def)
  with r3 have r4: "reachable [Some (newComponent ''s1'' sphere), Some (newComponent ''c1'' d20)]"
    by (rule reachable.step)
  show ?thesis
    using r4 reachable_ids_distinct [OF r4] by blast
qed

text \<open>
  Claim C6 as stated fails. After one cube is added, its id is in the forest, and
  \<open>updateComponent\<close> with a node of that id whose child carries the same id gives a forest
  with two nodes of one id. And \<open>addPrimitive\<close> does not look at the forest: when the
  drawn token is one that is already there, the id occurs twice.
\<close>

theorem update_or_add_can_duplicate_ids:
  "cid ex_dup \<in> set (ids (addPrimitive ''c1'' cube []))
    \<and> distinct (ids (addPrimitive ''c1'' cube []))
    \<and> updateComponent ex_dup (addPrimitive ''c1'' cube []) = Inr [Some ex_dup]
    \<and> \<not> distinct (ids [Some ex_dup])
    \<and> \<not> distinct (ids (addPrimitive ''c1'' sphere (addPrimitive ''c1'' cube [])))"
  by (simp add: addPrimitive_def updateComponent_def updateRecursive_Some updateRecursive_Nil
      ex_dup_def ex_cube_def newComponent_def)

subsection \<open>The export on the heap\<close>

lemma lookup_Some: "lookup h a = Some obj \<longleftrightarrow> a < length h \<and> h ! a = obj"
  by (auto simp: lookup_def)

lemma unchanged_except_refl: "unchanged_except p h h"
  by (simp add: unchanged_except_def)

lemma unchanged_except_trans:
  "unchanged_except p h h1 \<Longrightarrow> unchanged_except p h1 h2 \<Longrightarrow> unchanged_except p h h2"
  by (auto simp: unchanged_except_def)

lemma unchanged_except_new:
  "unchanged_except p h h1 \<Longrightarrow> unchanged_except g h1 h2 \<Longrightarrow> length h \<le> g
     \<Longrightarrow> unchanged_except p h h2"
  by (auto simp: unchanged_except_def)

lemma Object3D_add_frame:
  "Object3D_add p x h = (e, h') \<Longrightarrow> unchanged_except p h h' \<and> length h' = length h"
  by (auto simp: Object3D_add_def unchanged_except_def split: option.splits heap_object.splits)

lemma new_mesh_frame:
  assumes "new_mesh g pa ra sa p h = (e, h')"
  shows "unchanged_except p h h'"
proof -
  let ?h1 = "h @ [MeshObject g (MeshStandardMaterial ''white'') (0, 0, 0) (0, 0, 0) (1, 1, 1)]"
  have base: "unchanged_except p h ?h1"
    by (simp add: unchanged_except_def nth_append)
  show ?thesis
  proof (cases "\<exists>pv rv sv. read_tuple ?h1 pa = Some pv \<and> read_tuple ?h1 ra = Some rv
      \<and> read_tuple ?h1 sa = Some sv")
    case True
    then obtain pv rv sv where rd: "read_tuple ?h1 pa = Some pv" "read_tuple ?h1 ra = Some rv"
      "read_tuple ?h1 sa = Some sv"
      by blast
    let ?h2 = "?h1[length h := MeshObject g (MeshStandardMaterial ''white'') pv rv sv]"
    from assms rd have "Object3D_add p (length h) ?h2 = (e, h')"
      by (simp add: new_mesh_def alloc_def Let_def)
    then have "unchanged_except p ?h2 h'"
      by (simp add: Object3D_add_frame)
    moreover have "unchanged_except p h ?h2"
      by (simp add: unchanged_except_def nth_append)
    ultimately show ?thesis
      by (rule unchanged_except_trans [rotated])
  next
    case False
    with assms have "h' = ?h1"
      by (auto simp: new_mesh_def alloc_def Let_def split: option.splits)
    with base show ?thesis by simp
  qed
qed

lemma new_group_frame:
  assumes "new_group p h = (g, e, h')"
  shows "unchanged_except p h h' \<and> g = length h \<and> length h' = Suc (length h)"
proof -
  from assms have g: "g = length h" and a: "Object3D_add p (length h) (h @ [GroupObject []]) = (e, h')"
    by (auto simp: new_group_def alloc_def)
  from Object3D_add_frame [OF a]
  have "unchanged_except p (h @ [GroupObject []]) h'" "length h' = Suc (length h)"
    by simp_all
  moreover have "unchanged_except p h (h @ [GroupObject []])"
    by (simp add: unchanged_except_def nth_append)
  ultimately show ?thesis
    using g unchanged_except_trans by blast
qed

lemma visit_frame:
  assumes recur: "\<And>c g s r. recur c g s = Some r \<Longrightarrow> unchanged_except g s (snd r)"
    and v: "visit recur p slot h = Some (e, h')"
  shows "unchanged_except p h h'"
proof (cases slot)
  case None
  with v show ?thesis by (simp add: visit_def unchanged_except_refl)
next
  case (Some cmp)
  show ?thesis
  proof (cases "lookup h cmp")
    case None
    with v Some show ?thesis by (simp add: visit_def unchanged_except_refl)
  next
    case (Some obj)
    note obj = this
    show ?thesis
    proof (cases obj)
      case (ComponentObject i n type pa ra sa cha)
      obtain e1 h1 where m: "(case mesh_geometry type of
                        None \<Rightarrow> (None, h)
                      | Some geometry \<Rightarrow> new_mesh geometry pa ra sa p h) = (e1, h1)"
        by force
      have f1: "unchanged_except p h h1"
        using m by (auto simp: unchanged_except_refl new_mesh_frame split: option.splits)
      show ?thesis
      proof (cases e1)
        case (Some err)
        with v \<open>slot = Some cmp\<close> obj ComponentObject m have "h' = h1"
          by (simp add: visit_def)
        with f1 show ?thesis by simp
      next
        case None
        note e1 = this
        show ?thesis
        proof (cases "\<exists>cs. lookup h1 cha = Some (ComponentArray cs) \<and> cs \<noteq> []")
          case False
          with v \<open>slot = Some cmp\<close> obj ComponentObject m e1 have "h' = h1"
            by (auto simp: visit_def split: option.splits heap_object.splits if_splits)
          with f1 show ?thesis by simp
        next
          case True
          then obtain cs where cs: "lookup h1 cha = Some (ComponentArray cs)" "cs \<noteq> []"
            by blast
          obtain g e2 h2 where ng: "new_group p h1 = (g, e2, h2)"
            by (metis prod_cases3)
          from new_group_frame [OF ng]
          have f2: "unchanged_except p h1 h2" and g: "g = length h1"
            by simp_all
          show ?thesis
          proof (cases e2)
            case (Some err)
            with v \<open>slot = Some cmp\<close> obj ComponentObject m e1 cs ng have "h' = h2"
              by (simp add: visit_def)
            with f1 f2 show ?thesis
              using unchanged_except_trans by blast
          next
            case None
            with v \<open>slot = Some cmp\<close> obj ComponentObject m e1 cs ng
            have "recur cha g h2 = Some (e, h')"
              by (simp add: visit_def)
            from recur [OF this] have "unchanged_except g h2 h'" by simp
            moreover have "unchanged_except p h h2"
              using f1 f2 by (rule unchanged_except_trans)
            moreover have "length h \<le> g"
              using g f1 by (simp add: unchanged_except_def)
            ultimately show ?thesis
              using unchanged_except_new by blast
          qed
        qed
      qed
    qed (use v \<open>slot = Some cmp\<close> obj in \<open>simp_all add: visit_def unchanged_except_refl\<close>)
  qed
qed

lemma forEach_heap_frame:
  assumes "\<And>x s r. x \<in> set xs \<Longrightarrow> f x s = Some r \<Longrightarrow> unchanged_except p s (snd r)"
  shows "forEach_heap f xs h = Some r \<Longrightarrow> unchanged_except p h (snd r)"
  using assms
proof (induction xs arbitrary: h)
  case Nil
  then show ?case by (auto simp: unchanged_except_refl)
next
  case (Cons x xs)
  from Cons.prems(1) obtain e1 h1 where fx: "f x h = Some (e1, h1)"
    by (auto split: option.splits)
  from Cons.prems(2) [OF _ fx] have f1: "unchanged_except p h h1" by simp
  show ?case
  proof (cases e1)
    case None
    with Cons.prems(1) fx have "forEach_heap f xs h1 = Some r" by simp
    moreover have "\<And>y s r. y \<in> set xs \<Longrightarrow> f y s = Some r \<Longrightarrow> unchanged_except p s (snd r)"
      using Cons.prems(2) by (meson list.set_intros(2))
    ultimately have "unchanged_except p h1 (snd r)" by (rule Cons.IH)
    with f1 show ?thesis by (rule unchanged_except_trans)
  next
    case (Some err)
    with Cons.prems(1) fx have "r = (Some err, h1)" by simp
    with f1 show ?thesis by simp
  qed
qed

lemma buildScene_heap_frame:
  "buildScene_heap fuel components parent h = Some r \<Longrightarrow> unchanged_except parent h (snd r)"
proof (induction fuel arbitrary: components parent h r)
  case 0
  then show ?case by simp
next
  case (Suc fuel)
  show ?case
  proof (cases "\<exists>slots. lookup h components = Some (ComponentArray slots)")
    case False
    with Suc.prems have "r = (Some TypeError, h)"
      by (auto split: option.splits heap_object.splits)
    then show ?thesis by (simp add: unchanged_except_refl)
  next
    case True
    then obtain slots where "lookup h components = Some (ComponentArray slots)"
      by blast
    with Suc.prems have fe: "forEach_heap (visit (buildScene_heap fuel) parent) slots h = Some r"
      by simp
    show ?thesis
    proof (rule forEach_heap_frame [OF _ fe])
      fix x s r'
      assume "visit (buildScene_heap fuel) parent x s = Some r'"
      then have "visit (buildScene_heap fuel) parent x s = Some (fst r', snd r')"
        by simp
      then show "unchanged_except parent s (snd r')"
        by (rule visit_frame [rotated]) (rule Suc.IH)
    qed
  qed
qed

lemma scene_in_mono:
  "scene_in lo hi h as os \<Longrightarrow> lo' \<le> lo \<Longrightarrow> hi \<le> hi' \<Longrightarrow> scene_in lo' hi' h as os"
  by (induction lo hi h as os rule: scene_in.induct)
     (auto split: option.splits heap_object.splits)

lemma scene_in_agree:
  "scene_in lo hi h as os \<Longrightarrow> (\<And>a. lo \<le> a \<Longrightarrow> a < hi \<Longrightarrow> lookup h' a = lookup h a)
     \<Longrightarrow> scene_in lo hi h' as os"
  by (induction lo hi h as os rule: scene_in.induct)
     (auto split: option.splits heap_object.splits)

lemma scene_in_append:
  "scene_in lo hi h as os \<Longrightarrow> scene_in lo hi h bs ps \<Longrightarrow> scene_in lo hi h (as @ bs) (os @ ps)"
  by (induction lo hi h as os rule: scene_in.induct) auto

lemma lookup_frame:
  "unchanged_except p h h' \<Longrightarrow> lookup h a = Some obj \<Longrightarrow> a \<noteq> p \<Longrightarrow> lookup h' a = Some obj"
  by (auto simp: unchanged_except_def lookup_def split: if_splits)

lemma represents_slots_Some:
  "represents_slots h (Some a # slots) (Some c # cs) \<longleftrightarrow>
     (\<exists>pa ra sa cha chs.
        lookup h a = Some (ComponentObject (cid c) (name c) (ctype c) pa ra sa cha)
        \<and> read_tuple h pa = Some (position c) \<and> read_tuple h ra = Some (rotation c)
        \<and> read_tuple h sa = Some (scale c)
        \<and> lookup h cha = Some (ComponentArray chs) \<and> represents_slots h chs (children c))
     \<and> represents_slots h slots cs"
proof (cases "lookup h a")
  case None
  then show ?thesis by simp
next
  case (Some obj)
  show ?thesis
  proof (cases obj)
    case (ComponentObject i n type pa ra sa cha)
    show ?thesis
    proof (cases "lookup h cha")
      case None
      with Some ComponentObject show ?thesis by simp
    next
      case inner: (Some arr)
      with Some ComponentObject show ?thesis
        by (cases arr) auto
    qed
  qed (use Some in simp_all)
qed

lemma represents_slots_agree:
  assumes agree: "\<And>a obj. lookup h a = Some obj \<Longrightarrow> (\<forall>cs. obj \<noteq> GroupObject cs)
      \<Longrightarrow> lookup h' a = Some obj"
  shows "represents_slots h slots f \<Longrightarrow> represents_slots h' slots f"
proof (induction f arbitrary: slots rule: preorder.induct)
  case 1
  then show ?case by (cases slots) simp_all
next
  case (2 fs)
  then show ?case
    by (cases slots; cases "hd slots") auto
next
  case (3 c fs)
  from "3.prems" obtain a slots' where slots: "slots = Some a # slots'"
    by (cases slots; cases "hd slots") auto
  from "3.prems" obtain pa ra sa cha chs
    where a: "lookup h a = Some (ComponentObject (cid c) (name c) (ctype c) pa ra sa cha)"
      and t: "read_tuple h pa = Some (position c)" "read_tuple h ra = Some (rotation c)"
        "read_tuple h sa = Some (scale c)"
      and ch: "lookup h cha = Some (ComponentArray chs)" "represents_slots h chs (children c)"
      and rest: "represents_slots h slots' fs"
    unfolding slots represents_slots_Some by blast
  have tup: "read_tuple h' b = Some v" if "read_tuple h b = Some v" for b v
  proof -
    from that have "lookup h b = Some (NumberTuple v)"
      by (auto simp: read_tuple_def split: option.splits heap_object.splits)
    then have "lookup h' b = Some (NumberTuple v)"
      by (rule agree) simp
    then show ?thesis by (simp add: read_tuple_def)
  qed
  have a': "lookup h' a = Some (ComponentObject (cid c) (name c) (ctype c) pa ra sa cha)"
    using a by (rule agree) simp
  have ch': "lookup h' cha = Some (ComponentArray chs)"
    using ch(1) by (rule agree) simp
  have "represents_slots h' chs (children c)"
    using ch(2) by (rule "3.IH"(1))
  moreover have "represents_slots h' slots' fs"
    using rest by (rule "3.IH"(2))
  moreover note a' ch' t [THEN tup]
  ultimately show ?case
    unfolding slots represents_slots_Some by blast
qed

lemma represents_slots_frame:
  assumes u: "unchanged_except p h h'" and p: "lookup h p = Some (GroupObject cs)"
    and r: "represents_slots h slots f"
  shows "represents_slots h' slots f"
  using r
proof (rule represents_slots_agree [rotated])
  fix a obj
  assume l: "lookup h a = Some obj" and "\<forall>cs. obj \<noteq> GroupObject cs"
  with p have "a \<noteq> p" by auto
  with u l show "lookup h' a = Some obj" by (rule lookup_frame)
qed

lemma represents_slots_extend:
  assumes "length h \<le> length h'" and "\<And>a. a < length h \<Longrightarrow> h' ! a = h ! a"
    and r: "represents_slots h slots f"
  shows "represents_slots h' slots f"
  using r
proof (rule represents_slots_agree [rotated])
  fix a obj
  assume "lookup h a = Some obj"
  with assms(1,2) show "lookup h' a = Some obj"
    by (auto simp: lookup_def split: if_splits)
qed

lemma represents_slots_length: "represents_slots h slots f \<Longrightarrow> length slots = length f"
  by (induction h slots f rule: represents_slots.induct) auto

lemma lookup_append_old: "a < length h \<Longrightarrow> lookup (h @ xs) a = lookup h a"
  by (simp add: lookup_def nth_append)

lemma read_tuple_append: "read_tuple h a = Some v \<Longrightarrow> read_tuple (h @ xs) a = Some v"
  by (auto simp: read_tuple_def lookup_def nth_append split: if_splits)

lemma new_mesh_result:
  assumes "lookup h p = Some (GroupObject cs)"
    and "read_tuple h pa = Some pv" "read_tuple h ra = Some rv" "read_tuple h sa = Some sv"
  shows "new_mesh geo pa ra sa p h
     = (None, (h @ [MeshObject geo (MeshStandardMaterial ''white'') pv rv sv])
                [p := GroupObject (cs @ [length h])])"
proof -
  from assms(1) have p: "p < length h" "h ! p = GroupObject cs"
    by (simp_all add: lookup_Some)
  let ?h1 = "h @ [MeshObject geo (MeshStandardMaterial ''white'') (0, 0, 0) (0, 0, 0) (1, 1, 1)]"
  have rd: "read_tuple ?h1 pa = Some pv" "read_tuple ?h1 ra = Some rv" "read_tuple ?h1 sa = Some sv"
    using assms(2-4) by (simp_all add: read_tuple_append)
  have upd: "?h1[length h := MeshObject geo (MeshStandardMaterial ''white'') pv rv sv]
      = h @ [MeshObject geo (MeshStandardMaterial ''white'') pv rv sv]"
    by simp
  have "lookup (h @ [MeshObject geo (MeshStandardMaterial ''white'') pv rv sv]) p
      = Some (GroupObject cs)"
    using assms(1) p(1) by (simp add: lookup_append_old)
  then show ?thesis
    unfolding new_mesh_def alloc_def Let_def
    by (simp add: rd upd Object3D_add_def)
qed

lemma new_group_result:
  assumes "lookup h p = Some (GroupObject cs)"
  shows "new_group p h
     = (length h, None, (h @ [GroupObject []])[p := GroupObject (cs @ [length h])])"
proof -
  from assms have p: "p < length h"
    by (simp add: lookup_Some)
  have "lookup (h @ [GroupObject []]) p = Some (GroupObject cs)"
    using assms p by (simp add: lookup_append_old)
  then show ?thesis
    by (simp add: new_group_def alloc_def Object3D_add_def)
qed

lemma built_refl:
  "lookup h p = Some (GroupObject cs) \<Longrightarrow> scene_in (Suc p) (length h) h cs os \<Longrightarrow> built p h h os"
  by (simp add: built_def unchanged_except_refl)

lemma built_add_object:
  assumes p: "lookup h p = Some (GroupObject cs)"
    and sc: "scene_in (Suc p) (length h) h cs os"
    and new: "scene_in (Suc p) (Suc (length h)) ((h @ [obj])[p := GroupObject (cs @ [length h])])
                [length h] [o']"
  shows "built p h ((h @ [obj])[p := GroupObject (cs @ [length h])]) (os @ [o'])"
proof -
  let ?h' = "(h @ [obj])[p := GroupObject (cs @ [length h])]"
  from p have pl: "p < length h" by (simp add: lookup_Some)
  have un: "unchanged_except p h ?h'"
    by (simp add: unchanged_except_def nth_append)
  have lk: "lookup ?h' p = Some (GroupObject (cs @ [length h]))"
    using pl by (simp add: lookup_def)
  have "lookup ?h' a = lookup h a" if "Suc p \<le> a" "a < length h" for a
    using that by (simp add: lookup_def nth_append)
  with sc have "scene_in (Suc p) (length h) ?h' cs os"
    by (rule scene_in_agree)
  then have "scene_in (Suc p) (Suc (length h)) ?h' cs os"
    by (rule scene_in_mono) simp_all
  from scene_in_append [OF this new] un lk show ?thesis
    by (simp add: built_def)
qed

lemma built_parent:
  assumes "built p h h' os"
  obtains cs where "lookup h' p = Some (GroupObject cs)" "scene_in (Suc p) (length h') h' cs os"
    "unchanged_except p h h'"
  using assms by (auto simp: built_def split: option.splits heap_object.splits)

lemma visit_builds:
  assumes recur:
    "\<And>cha g s chs f. lookup s cha = Some (ComponentArray chs) \<Longrightarrow> represents_slots s chs f
       \<Longrightarrow> well_typed f \<Longrightarrow> depth f \<le> d \<Longrightarrow> lookup s g = Some (GroupObject [])
       \<Longrightarrow> \<exists>s' r. recur cha g s = Some (None, s') \<and> buildScene f [] = Inr r \<and> built g s s' r"
    and rep: "represents_slots h [Some a] [Some c]"
    and wt: "well_typed (children c)" and dp: "depth (children c) \<le> d"
    and p: "lookup h p = Some (GroupObject cs)"
    and sc: "scene_in (Suc p) (length h) h cs os"
  shows "\<exists>h' g. visit recur p (Some a) h = Some (None, h')
           \<and> buildScene (children c) [] = Inr g \<and> built p h h' (os @ node_objects c g)"
proof -
  from rep obtain pa ra sa cha chs
    where a: "lookup h a = Some (ComponentObject (cid c) (name c) (ctype c) pa ra sa cha)"
      and t: "read_tuple h pa = Some (position c)" "read_tuple h ra = Some (rotation c)"
        "read_tuple h sa = Some (scale c)"
      and ch: "lookup h cha = Some (ComponentArray chs)" "represents_slots h chs (children c)"
    unfolding represents_slots_Some by blast
  from p have pl: "p < length h" by (simp add: lookup_Some)
  define meshpart where "meshpart =
     (case mesh_geometry (ctype c) of
        None \<Rightarrow> []
      | Some g \<Rightarrow> [Mesh g (MeshStandardMaterial ''white'') (position c) (rotation c) (scale c)])"
  have "\<exists>h1. (case mesh_geometry (ctype c) of
                None \<Rightarrow> (None, h)
              | Some geometry \<Rightarrow> new_mesh geometry pa ra sa p h) = (None, h1)
            \<and> built p h h1 (os @ meshpart)"
  proof (cases "mesh_geometry (ctype c)")
    case None
    with p sc show ?thesis
      by (simp add: meshpart_def built_refl)
  next
    case (Some geo)
    let ?h1 = "(h @ [MeshObject geo (MeshStandardMaterial ''white'') (position c) (rotation c)
                  (scale c)])[p := GroupObject (cs @ [length h])]"
    have "scene_in (Suc p) (Suc (length h)) ?h1 [length h]
        [Mesh geo (MeshStandardMaterial ''white'') (position c) (rotation c) (scale c)]"
      using pl by (simp add: lookup_def)
    from built_add_object [OF p sc this] new_mesh_result [OF p t, of geo] Some
    show ?thesis
      by (simp add: meshpart_def)
  qed
  then obtain h1 where m: "(case mesh_geometry (ctype c) of
                None \<Rightarrow> (None, h)
              | Some geometry \<Rightarrow> new_mesh geometry pa ra sa p h) = (None, h1)"
    and b1: "built p h h1 (os @ meshpart)"
    by blast
  from b1 obtain cs1 where p1: "lookup h1 p = Some (GroupObject cs1)"
    and sc1: "scene_in (Suc p) (length h1) h1 cs1 (os @ meshpart)"
    and u1: "unchanged_except p h h1"
    by (rule built_parent)
  from ch(1) p have "cha \<noteq> p" by auto
  from lookup_frame [OF u1 ch(1) this] have ch1: "lookup h1 cha = Some (ComponentArray chs)" .
  have rep1: "represents_slots h1 chs (children c)"
    using u1 p ch(2) by (rule represents_slots_frame)
  have len: "length chs = length (children c)"
    using ch(2) by (rule represents_slots_length)
  have v: "visit recur p (Some a) h =
      (if length chs > 0 then
         (case new_group p h1 of
            (grp, Some e, h) \<Rightarrow> Some (Some e, h)
          | (grp, None, h) \<Rightarrow> recur cha grp h)
       else Some (None, h1))"
    by (simp add: visit_def a m ch1)
  show ?thesis
  proof (cases "children c = []")
    case True
    with len v have "visit recur p (Some a) h = Some (None, h1)" by simp
    moreover from True have "buildScene (children c) [] = Inr []"
      by (simp add: buildScene_Nil)
    moreover from True have "node_objects c [] = meshpart"
      by (simp add: node_objects_def meshpart_def)
    ultimately show ?thesis
      using b1 by auto
  next
    case False
    let ?g = "length h1"
    let ?h2 = "(h1 @ [GroupObject []])[p := GroupObject (cs1 @ [?g])]"
    from p1 have pl1: "p < length h1" by (simp add: lookup_Some)
    have ng: "new_group p h1 = (?g, None, ?h2)"
      using p1 by (rule new_group_result)
    have u2: "unchanged_except p h1 ?h2"
      by (simp add: unchanged_except_def nth_append)
    have ch2: "lookup ?h2 cha = Some (ComponentArray chs)"
      using lookup_frame [OF u2 ch1 \<open>cha \<noteq> p\<close>] .
    have rep2: "represents_slots ?h2 chs (children c)"
      using u2 p1 rep1 by (rule represents_slots_frame)
    have g2: "lookup ?h2 ?g = Some (GroupObject [])"
      using pl1 by (simp add: lookup_def)
    from recur [OF ch2 rep2 wt dp g2]
    obtain h3 r where rc: "recur cha ?g ?h2 = Some (None, h3)"
      and bs: "buildScene (children c) [] = Inr r" and b3: "built ?g ?h2 h3 r"
      by blast
    from b3 obtain csg where g3: "lookup h3 ?g = Some (GroupObject csg)"
      and scg: "scene_in (Suc ?g) (length h3) h3 csg r"
      and u3: "unchanged_except ?g ?h2 h3"
      by (rule built_parent)
    have vis: "visit recur p (Some a) h = Some (None, h3)"
      using v len False ng rc by simp
    have un: "unchanged_except p h h3"
    proof -
      have "unchanged_except p h ?h2"
        using u1 u2 by (rule unchanged_except_trans)
      moreover have "length h \<le> ?g"
        using u1 by (simp add: unchanged_except_def)
      ultimately show ?thesis
        using u3 unchanged_except_new by blast
    qed
    have p2: "lookup ?h2 p = Some (GroupObject (cs1 @ [?g]))"
      using pl1 by (simp add: lookup_def)
    have p3: "lookup h3 p = Some (GroupObject (cs1 @ [?g]))"
      using lookup_frame [OF u3 p2] pl1 by simp
    have l3: "length ?h2 \<le> length h3"
      using u3 by (simp add: unchanged_except_def)
    have old: "scene_in (Suc p) (length h3) h3 cs1 (os @ meshpart)"
    proof -
      have "lookup h3 b = lookup h1 b" if "Suc p \<le> b" "b < length h1" for b
      proof -
        have "lookup ?h2 b = Some (h1 ! b)"
          using that by (simp add: lookup_def nth_append)
        from lookup_frame [OF u3 this] that have "lookup h3 b = Some (h1 ! b)"
          by simp
        with that show ?thesis by (simp add: lookup_def)
      qed
      with sc1 have "scene_in (Suc p) (length h1) h3 cs1 (os @ meshpart)"
        by (rule scene_in_agree)
      then show ?thesis
        by (rule scene_in_mono) (use l3 in simp_all)
    qed
    have "scene_in (Suc p) (length h3) h3 csg r"
      using scg by (rule scene_in_mono) (use pl1 in simp_all)
    then have new: "scene_in (Suc p) (length h3) h3 [?g] [Group r]"
      using g3 pl1 l3 by simp
    have "scene_in (Suc p) (length h3) h3 (cs1 @ [?g]) ((os @ meshpart) @ [Group r])"
      using old new by (rule scene_in_append)
    moreover have "node_objects c r = meshpart @ [Group r]"
      using False by (simp add: node_objects_def meshpart_def)
    ultimately have "built p h h3 (os @ node_objects c r)"
      using un p3 by (simp add: built_def)
    with vis bs show ?thesis by blast
  qed
qed

lemma forEach_builds:
  assumes recur:
    "\<And>cha g s chs f. lookup s cha = Some (ComponentArray chs) \<Longrightarrow> represents_slots s chs f
       \<Longrightarrow> well_typed f \<Longrightarrow> depth f \<le> d \<Longrightarrow> lookup s g = Some (GroupObject [])
       \<Longrightarrow> \<exists>s' r. recur cha g s = Some (None, s') \<and> buildScene f [] = Inr r \<and> built g s s' r"
  shows "well_typed f \<Longrightarrow> represents_slots h slots f \<Longrightarrow> depth f \<le> Suc d
     \<Longrightarrow> lookup h p = Some (GroupObject cs) \<Longrightarrow> scene_in (Suc p) (length h) h cs os
     \<Longrightarrow> \<exists>h' r. forEach_heap (visit recur p) slots h = Some (None, h')
           \<and> buildScene f os = Inr r \<and> built p h h' r"
proof (induction f arbitrary: slots h cs os rule: well_typed.induct)
  case 1
  then have "slots = []" by (cases slots) simp_all
  with "1.prems" show ?case
    by (simp add: buildScene_Nil built_refl)
next
  case (2 fs)
  then show ?case by simp
next
  case (3 c fs)
  from "3.prems"(2) obtain a slots' where slots: "slots = Some a # slots'"
    by (cases slots; cases "hd slots") auto
  from "3.prems"(1) have wt: "well_typed (children c)" "well_typed fs"
    by simp_all
  from "3.prems"(3) have dp: "depth (children c) \<le> d" "depth fs \<le> Suc d"
    by simp_all
  from "3.prems"(2) have rep: "represents_slots h [Some a] [Some c]" "represents_slots h slots' fs"
    unfolding slots represents_slots_Some by simp_all
  have "\<exists>h1 g. visit recur p (Some a) h = Some (None, h1)
           \<and> buildScene (children c) [] = Inr g \<and> built p h h1 (os @ node_objects c g)"
    using recur rep(1) wt(1) dp(1) "3.prems"(4,5) by (rule visit_builds)
  then obtain h1 g where v: "visit recur p (Some a) h = Some (None, h1)"
    and bg: "buildScene (children c) [] = Inr g"
    and b1: "built p h h1 (os @ node_objects c g)"
    by blast
  from b1 obtain cs1 where p1: "lookup h1 p = Some (GroupObject cs1)"
    and sc1: "scene_in (Suc p) (length h1) h1 cs1 (os @ node_objects c g)"
    and u1: "unchanged_except p h h1"
    by (rule built_parent)
  have rep1: "represents_slots h1 slots' fs"
    using u1 "3.prems"(4) rep(2) by (rule represents_slots_frame)
  from "3.IH"(2) [OF wt(2) rep1 dp(2) p1 sc1]
  obtain h' r where fe: "forEach_heap (visit recur p) slots' h1 = Some (None, h')"
    and br: "buildScene fs (os @ node_objects c g) = Inr r" and b2: "built p h1 h' r"
    by blast
  have "forEach_heap (visit recur p) slots h = Some (None, h')"
    using v fe by (simp add: slots)
  moreover have "buildScene (Some c # fs) os = Inr r"
  proof (cases "children c = []")
    case True
    with bg have "g = []" by (simp add: buildScene_Nil)
    with True br show ?thesis by (simp add: buildScene_Some)
  next
    case False
    with bg br show ?thesis by (simp add: buildScene_Some)
  qed
  moreover have "built p h h' r"
  proof -
    from b2 have "unchanged_except p h1 h'" by (rule built_parent)
    with u1 have "unchanged_except p h h'" by (rule unchanged_except_trans)
    with b2 show ?thesis by (simp add: built_def)
  qed
  ultimately show ?case by blast
qed

lemma depth_0: "well_typed f \<Longrightarrow> depth f = 0 \<Longrightarrow> f = []"
  by (cases f rule: well_typed.cases) simp_all

lemma buildScene_heap_builds:
  "lookup h components = Some (ComponentArray slots) \<Longrightarrow> represents_slots h slots f
     \<Longrightarrow> well_typed f \<Longrightarrow> depth f \<le> fuel \<Longrightarrow> lookup h g = Some (GroupObject [])
     \<Longrightarrow> \<exists>h' r. buildScene_heap (Suc fuel) components g h = Some (None, h')
           \<and> buildScene f [] = Inr r \<and> built g h h' r"
proof (induction fuel arbitrary: h components slots f g)
  case 0
  then have "f = []" by (simp add: depth_0)
  with "0.prems" have "slots = []"
    by (cases slots) simp_all
  with "0.prems" \<open>f = []\<close> show ?case
    by (simp add: buildScene_Nil built_refl)
next
  case (Suc fuel)
  have sc: "scene_in (Suc g) (length h) h [] []"
    by simp
  have "\<exists>h' r. forEach_heap (visit (buildScene_heap (Suc fuel)) g) slots h = Some (None, h')
           \<and> buildScene f [] = Inr r \<and> built g h h' r"
    using Suc.IH Suc.prems(3,2,4,5) sc by (rule forEach_builds)
  then obtain h' r where "forEach_heap (visit (buildScene_heap (Suc fuel)) g) slots h = Some (None, h')"
    "buildScene f [] = Inr r" "built g h h' r"
    by blast
  with Suc.prems(1) show ?case by simp
qed

text \<open>
  Claim C10. The export, run on a heap \<open>h\<close> with the array of roots at address \<open>model\<close>:
  whatever the heap holds, whatever the bound, and whether or not an exception is
  thrown, every object of \<open>h\<close> is unchanged in the resulting heap \<open>h'\<close> (node records,
  tuples and child arrays among them), so that \<open>h'\<close> still holds at \<open>model\<close> any forest
  that \<open>h\<close> held. When \<open>h\<close> holds a forest \<open>f\<close> of the declared type, the export
  returns without exception (a bound above the depth of \<open>f\<close> suffices): the scene is a
  new object, its content is the one \<open>buildScene\<close> computes from \<open>f\<close>, and all
  objects of the scene graph are new ones, at addresses that \<open>h\<close> did not have.
\<close>

theorem onExport_leaves_forest_unchanged:
  "(onExport_heap fuel model h = Some (scene, e, h') \<longrightarrow>
      length h \<le> length h' \<and> (\<forall>a < length h. h' ! a = h ! a)
      \<and> (\<forall>f. represents h model f \<longrightarrow> represents h' model f))
   \<and> (represents h model f \<and> well_typed f \<longrightarrow>
      (\<exists>h1 r cs. onExport_heap (Suc (depth f)) model h = Some (length h, None, h1)
         \<and> export_scene f = Inr r
         \<and> length h \<le> length h1 \<and> (\<forall>a < length h. h1 ! a = h ! a)
         \<and> represents h1 model f
         \<and> lookup h1 (length h) = Some (GroupObject cs)
         \<and> scene_in (length h) (length h1) h1 cs r))"
proof (rule conjI; rule impI)
  assume ex: "onExport_heap fuel model h = Some (scene, e, h')"
  then have "buildScene_heap fuel model (length h) (h @ [GroupObject []]) = Some (e, h')"
    by (auto simp: onExport_heap_def alloc_def)
  from buildScene_heap_frame [OF this]
  have u: "unchanged_except (length h) (h @ [GroupObject []]) h'"
    by simp
  then have len: "length h \<le> length h'"
    by (simp add: unchanged_except_def)
  have same: "h' ! a = h ! a" if "a < length h" for a
    using u that by (auto simp: unchanged_except_def nth_append)
  have "represents h' model g" if "represents h model g" for g
  proof -
    from that obtain slots where "lookup h model = Some (ComponentArray slots)"
      "represents_slots h slots g"
      by (auto simp: represents_def split: option.splits heap_object.splits)
    moreover from this(1) len same have "lookup h' model = Some (ComponentArray slots)"
      by (auto simp: lookup_def split: if_splits)
    moreover note represents_slots_extend [OF len same]
    ultimately show ?thesis
      by (simp add: represents_def)
  qed
  with len same
  show "length h \<le> length h' \<and> (\<forall>a < length h. h' ! a = h ! a)
      \<and> (\<forall>f. represents h model f \<longrightarrow> represents h' model f)"
    by blast
next
  assume "represents h model f \<and> well_typed f"
  then obtain slots where m: "lookup h model = Some (ComponentArray slots)"
    and rs: "represents_slots h slots f" and wt: "well_typed f"
    by (auto simp: represents_def split: option.splits heap_object.splits)
  let ?h0 = "h @ [GroupObject []]"
  from m have ml: "model < length h" by (simp add: lookup_Some)
  have m0: "lookup ?h0 model = Some (ComponentArray slots)"
    using m ml by (simp add: lookup_append_old)
  have rs0: "represents_slots ?h0 slots f"
    using rs by (intro represents_slots_extend [of h ?h0]) (simp_all add: nth_append)
  have g0: "lookup ?h0 (length h) = Some (GroupObject [])"
    by (simp add: lookup_def)
  from buildScene_heap_builds [OF m0 rs0 wt order_refl g0]
  obtain h1 r where b: "buildScene_heap (Suc (depth f)) model (length h) ?h0 = Some (None, h1)"
    and r: "buildScene f [] = Inr r" and bt: "built (length h) ?h0 h1 r"
    by blast
  from bt obtain cs where g1: "lookup h1 (length h) = Some (GroupObject cs)"
    and sc: "scene_in (Suc (length h)) (length h1) h1 cs r"
    and u: "unchanged_except (length h) ?h0 h1"
    by (rule built_parent)
  from u have len: "length h \<le> length h1"
    by (simp add: unchanged_except_def)
  have same: "h1 ! a = h ! a" if "a < length h" for a
    using u that by (auto simp: unchanged_except_def nth_append)
  have "lookup h1 model = Some (ComponentArray slots)"
    using m len same by (auto simp: lookup_def split: if_splits)
  with represents_slots_extend [OF len same rs] have rep1: "represents h1 model f"
    by (simp add: represents_def)
  have "onExport_heap (Suc (depth f)) model h = Some (length h, None, h1)"
    using b by (simp add: onExport_heap_def alloc_def)
  moreover have "export_scene f = Inr r"
    using r by (simp add: export_scene_def)
  moreover have "scene_in (length h) (length h1) h1 cs r"
    using sc by (rule scene_in_mono) simp_all
  ultimately show "\<exists>h1 r cs. onExport_heap (Suc (depth f)) model h = Some (length h, None, h1)
         \<and> export_scene f = Inr r
         \<and> length h \<le> length h1 \<and> (\<forall>a < length h. h1 ! a = h ! a)
         \<and> represents h1 model f
         \<and> lookup h1 (length h) = Some (GroupObject cs)
         \<and> scene_in (length h) (length h1) h1 cs r"
    using len same rep1 g1 by blast
qed

theorem onExport_leaves_forest_unchanged_witness:
  "represents ex_heap 0 [Some ex_cone] \<and> well_typed [Some ex_cone]
    \<and> onExport_heap (Suc (depth [Some ex_cone])) 0 ex_heap
        = Some (11, None,
            ex_heap @
            [GroupObject [12, 13],
             MeshObject (ConeGeometry 1 2 32) (MeshStandardMaterial ''white'')
               (2, 0, 0) (0, 1, 0) (1, 1, 3),
             GroupObject [14],
             MeshObject (SphereGeometry 1 32 32) (MeshStandardMaterial ''white'')
               (0, 0, 0) (0, 0, 0) (1, 1, 1)])
    \<and> length ex_heap \<le> length (ex_heap @
            [GroupObject [12, 13],
             MeshObject (ConeGeometry 1 2 32) (MeshStandardMaterial ''white'')
               (2, 0, 0) (0, 1, 0) (1, 1, 3),
             GroupObject [14],
             MeshObject (SphereGeometry 1 32 32) (MeshStandardMaterial ''white'')
               (0, 0, 0) (0, 0, 0) (1, 1, 1)])
    \<and> represents (ex_heap @
            [GroupObject [12, 13],
             MeshObject (ConeGeometry 1 2 32) (MeshStandardMaterial ''white'')
               (2, 0, 0) (0, 1, 0) (1, 1, 3),
             GroupObject [14],
             MeshObject (SphereGeometry 1 32 32) (MeshStandardMaterial ''white'')
               (0, 0, 0) (0, 0, 0) (1, 1, 1)]) 0 [Some ex_cone]
    \<and> (\<exists>h1 r cs. onExport_heap (Suc (depth [Some ex_cone])) 0 ex_heap
            = Some (length ex_heap, None, h1)
          \<and> export_scene [Some ex_cone] = Inr r
          \<and> lookup h1 (length ex_heap) = Some (GroupObject cs)
          \<and> scene_in (length ex_heap) (length h1) h1 cs r)"
proof -
  let ?h' = "ex_heap @
            [GroupObject [12, 13],
             MeshObject (ConeGeometry 1 2 32) (MeshStandardMaterial ''white'')
               (2, 0, 0) (0, 1, 0) (1, 1, 3),
             GroupObject [14],
             MeshObject (SphereGeometry 1 32 32) (MeshStandardMaterial ''white'')
               (0, 0, 0) (0, 0, 0) (1, 1, 1)]"
  have h: "represents ex_heap 0 [Some ex_cone]" "well_typed [Some ex_cone]"
    by (simp_all add: represents_def lookup_def read_tuple_def ex_heap_def ex_cone_def
        ex_sphere_def newComponent_def capitalized_type_string del: type_string.simps)
  have d: "depth [Some ex_cone] = Suc (Suc 0)"
    by (simp add: ex_cone_def ex_sphere_def newComponent_def)
  have e: "onExport_heap (Suc (depth [Some ex_cone])) 0 ex_heap = Some (11, None, ?h')"
    unfolding d
    by (simp add: onExport_heap_def alloc_def visit_def new_mesh_def new_group_def
        Object3D_add_def lookup_def read_tuple_def ex_heap_def Let_def)
  show ?thesis
    using h e
      onExport_leaves_forest_unchanged [of "Suc (depth [Some ex_cone])" 0 ex_heap 11 None ?h'
        "[Some ex_cone]"]
    by blast
qed

end
